theory Spec2Isabelle
  imports Main "HOL-Library.Word"
begin

unbundle bit_operations_syntax

section \<open>JavaScript primitives used by the security modules\<close>

text \<open>
  A JavaScript string is modelled as the list of its code units, restricted to the code
  units below 256 (type \<open>char\<close>); \<open>charCodeAt\<close> is \<open>of_char\<close>. The clock
  \<open>Date.now()\<close> is a natural number of milliseconds. Numbers are integers, exact as
  long as they stay inside the safe-integer range of a double.
\<close>

definition digit_char :: "nat \<Rightarrow> char" where
  "digit_char d = char_of (48 + d)"

text \<open>\<open>String(n)\<close> for a non-negative integer: its decimal digits.\<close>

fun String_nat :: "nat \<Rightarrow> string" where
  "String_nat n = (if n < 10 then [digit_char n] else String_nat (n div 10) @ [digit_char (n mod 10)])"

declare String_nat.simps [simp del]

text \<open>
  \<open>String.prototype.trim\<close>: the white space and line terminators among the code units
  below 256 are TAB, LF, VT, FF, CR, SP and NBSP.
\<close>

definition isWhitespace :: "char \<Rightarrow> bool" where
  "isWhitespace c = (of_char c \<in> {9, 10, 11, 12, 13, 32, 160 :: nat})"

definition trim :: "string \<Rightarrow> string" where
  "trim s = rev (dropWhile isWhitespace (rev (dropWhile isWhitespace s)))"

text \<open>\<open>s.includes(p)\<close>: \<open>p\<close> occurs in \<open>s\<close> as a contiguous substring.\<close>

fun str_includes :: "string \<Rightarrow> string \<Rightarrow> bool" where
  "str_includes [] p = (p = [])"
| "str_includes (c # cs) p = (take (length p) (c # cs) = p \<or> str_includes cs p)"

text \<open>
  A JavaScript number that may be \<open>NaN\<close>. It is used where the code can compute with
  \<open>NaN\<close> on data it does not control (what \<open>parseInt\<close> reads from the counter store).
\<close>

datatype number = Num int | NaN

definition isDigit :: "char \<Rightarrow> bool" where
  "isDigit c = (48 \<le> (of_char c :: nat) \<and> (of_char c :: nat) \<le> 57)"

definition digitsValue :: "string \<Rightarrow> nat" where
  "digitsValue ds = foldl (\<lambda>a c. 10 * a + (of_char c - 48)) 0 ds"

text \<open>\<open>String(x)\<close> for a number: a sign and the decimal digits, or \<open>NaN\<close>.\<close>

definition String_number :: "number \<Rightarrow> string" where
  "String_number x =
     (case x of
        NaN \<Rightarrow> ''NaN''
      | Num n \<Rightarrow> if n < 0 then CHR ''-'' # String_nat (nat (- n)) else String_nat (nat n))"

text \<open>
  \<open>parseInt(s, 10)\<close>: leading white space is skipped, one sign is read, then the longest
  run of decimal digits; with no digit the result is \<open>NaN\<close>.
\<close>

definition parseInt :: "string \<Rightarrow> number" where
  "parseInt s =
     (let t = dropWhile isWhitespace s;
          neg = (t \<noteq> [] \<and> hd t = CHR ''-'');
          u = (if t \<noteq> [] \<and> (hd t = CHR ''-'' \<or> hd t = CHR ''+'') then tl t else t);
          ds = takeWhile isDigit u
      in if ds = [] then NaN
         else Num (if neg then - int (digitsValue ds) else int (digitsValue ds)))"

text \<open>\<open>s.split(sep)\<close> for a separator of one character.\<close>

fun split :: "char \<Rightarrow> string \<Rightarrow> string list" where
  "split sep [] = [[]]"
| "split sep (c # cs) =
     (if c = sep then [] # split sep cs
      else (case split sep cs of p # ps \<Rightarrow> (c # p) # ps | [] \<Rightarrow> [[c]]))"



text \<open>\<open>Math.ceil(x / d)\<close> for integers \<open>x\<close> and \<open>d > 0\<close>.\<close>

definition ceilDiv :: "int \<Rightarrow> int \<Rightarrow> int" where
  "ceilDiv x d = - ((- x) div d)"

text \<open>
  The 32-bit operations: \<open>x << k\<close> and \<open>x & y\<close> convert their operands with ToInt32 and
  give a signed 32-bit result.
\<close>

definition shl32 :: "int \<Rightarrow> nat \<Rightarrow> int" where
  "shl32 x k = sint (push_bit k (word_of_int x :: 32 word))"

definition and32 :: "int \<Rightarrow> int \<Rightarrow> int" where
  "and32 x y = sint ((word_of_int x :: 32 word) AND word_of_int y)"

text \<open>\<open>a % b\<close> for \<open>b \<noteq> 0\<close>: the remainder takes the sign of the dividend.\<close>

definition jsRem :: "int \<Rightarrow> int \<Rightarrow> int" where
  "jsRem a b = sgn a * (\<bar>a\<bar> mod \<bar>b\<bar>)"

section \<open>Key pool selector (lib/security/api-keys)\<close>

text \<open>\<open>process.env\<close>: a partial map from variable names to strings.\<close>

type_synonym env = "string \<rightharpoonup> string"

datatype error = Error string

text \<open>
  The condition \<open>key && key.trim().length > 0 && !key.includes('placeholder')\<close>
  on a variable that is set; an unset variable is \<open>undefined\<close>, which is falsy.
\<close>

definition usableKey :: "string \<Rightarrow> bool" where
  "usableKey key = (key \<noteq> [] \<and> length (trim key) > 0 \<and> \<not> str_includes key ''placeholder'')"

definition indexedName :: "nat \<Rightarrow> string" where
  "indexedName i = ''OPENROUTER_API_KEY_'' @ String_nat i"

text \<open>One iteration of the loop \<open>for (let i = 1; i <= 10; i++)\<close>.\<close>

definition pushIndexed :: "env \<Rightarrow> nat \<Rightarrow> string list \<Rightarrow> string list" where
  "pushIndexed env i keys =
     (case env (indexedName i) of
        None \<Rightarrow> keys
      | Some key \<Rightarrow> if usableKey key then keys @ [trim key] else keys)"

definition loadOpenRouterKeys :: "env \<Rightarrow> string list" where
  "loadOpenRouterKeys env =
     (let keys = fold (pushIndexed env) [1 ..< 11] []
      in case env ''OPENROUTER_API_KEY'' of
           None \<Rightarrow> keys
         | Some singleKey \<Rightarrow>
             if usableKey singleKey then
               (if trim singleKey \<notin> set keys then trim singleKey # keys else keys)
             else keys)"

definition noKeys :: error where
  "noKeys = Error ''No OpenRouter API keys configured''"

definition getCurrentApiKey :: "env \<Rightarrow> nat \<Rightarrow> error + (string \<times> nat)" where
  "getCurrentApiKey env now =
     (let keys = loadOpenRouterKeys env
      in if length keys = 0 then Inl noKeys
         else let minute = now div 60000;
                  index = minute mod length keys
              in Inr (keys ! index, index))"

definition rotateKeyOnFailure :: "env \<Rightarrow> nat \<Rightarrow> error + string" where
  "rotateKeyOnFailure env now =
     (let keys = loadOpenRouterKeys env
      in if length keys = 0 then Inl noKeys
         else let second = now div 1000;
                  index = (second + 1) mod length keys
              in Inr (keys ! index))"

text \<open>
  \<open>getKeyRotationStatus\<close>. With an empty pool \<open>minute % keys.length\<close> is \<open>NaN\<close>,
  written \<open>None\<close>. \<open>Date.prototype.toISOString\<close> belongs to the runtime and is a
  parameter.
\<close>

record rotation_status =
  totalKeys :: nat
  currentIndex :: "nat option"
  failedCount :: nat
  lastReset :: string

definition getKeyRotationStatus :: "(nat \<Rightarrow> string) \<Rightarrow> env \<Rightarrow> nat \<Rightarrow> rotation_status" where
  "getKeyRotationStatus toISOString env now =
     (let keys = loadOpenRouterKeys env;
          minute = now div 60000
      in \<lparr> totalKeys = length keys,
           currentIndex = (if length keys = 0 then None else Some (minute mod length keys)),
           failedCount = 0,
           lastReset = toISOString (minute * 60000) \<rparr>)"

text \<open>The JSON body of the key-status endpoint (app/api/keys/route.ts).\<close>

record key_status =
  ks_totalKeys :: nat
  ks_activeKeys :: nat
  ks_currentIndex :: "nat option"
  ks_lastReset :: string

record key_status_body =
  success :: bool
  status :: key_status

definition getKeyStatusHandler :: "(nat \<Rightarrow> string) \<Rightarrow> env \<Rightarrow> nat \<Rightarrow> key_status_body" where
  "getKeyStatusHandler toISOString env now =
     (let st = getKeyRotationStatus toISOString env now
      in \<lparr> success = True,
           status = \<lparr> ks_totalKeys = totalKeys st,
                      ks_activeKeys = totalKeys st - failedCount st,
                      ks_currentIndex = map_option (\<lambda>i. i + 1) (currentIndex st),
                      ks_lastReset = lastReset st \<rparr> \<rparr>)"

subsection \<open>The retry loop of the chat handler (app/api/chat/route.ts)\<close>

text \<open>
  The upstream call \<open>makeOpenRouterRequest\<close> is a parameter: given the number of the
  attempt and the credential it answers with a response, or \<open>None\<close> when the call
  throws (as written it catches a failed fetch and answers with a 503 response).
  \<open>clock a\<close> is what \<open>Date.now()\<close> reads during attempt \<open>a\<close>. The
  list \<open>used\<close> records the credentials that the loop has tried.
\<close>

record response =
  ok :: bool
  http_status :: nat

type_synonym upstream = "nat \<Rightarrow> string \<Rightarrow> response option"

function rotateLoop ::
  "env \<Rightarrow> (nat \<Rightarrow> nat) \<Rightarrow> upstream \<Rightarrow> response \<Rightarrow> nat \<Rightarrow> string list \<Rightarrow> response \<times> string list" where
  "rotateLoop env clock up resp attempts used =
     (if \<not> ok resp \<and> attempts < 5 then
        (case rotateKeyOnFailure env (clock attempts) of
           Inl e \<Rightarrow> (resp, used)
         | Inr apiKey \<Rightarrow>
             (case up attempts apiKey of
                None \<Rightarrow> (resp, used @ [apiKey])
              | Some r \<Rightarrow> rotateLoop env clock up r (attempts + 1) (used @ [apiKey])))
      else (resp, used))"
  by pat_completeness auto
termination
  by (relation "measure (\<lambda>(env, clock, up, resp, attempts, used). 5 - attempts)") auto

declare rotateLoop.simps [simp del]

text \<open>
  The start of \<open>handleStreamingResponse\<close>: the first credential comes from
  \<open>getCurrentApiKey\<close>, the later ones from the loop. The result is the last response and
  the credentials tried by the loop; \<open>Inl\<close> is the 503 answer or the rejected first fetch.
\<close>

definition handleStreamingKeys ::
  "env \<Rightarrow> (nat \<Rightarrow> nat) \<Rightarrow> upstream \<Rightarrow> error + (response \<times> string list)" where
  "handleStreamingKeys env clock up =
     (case getCurrentApiKey env (clock 0) of
        Inl e \<Rightarrow> Inl (Error ''Service temporarily unavailable. Please try again later.'')
      | Inr (apiKey, index) \<Rightarrow>
          (case up 0 apiKey of
             None \<Rightarrow> Inl (Error ''fetch failed'')
           | Some resp \<Rightarrow> Inr (rotateLoop env clock up resp 1 [])))"

section \<open>Request admission controller (lib/security/rate-limit.ts)\<close>

text \<open>
  Every entry of \<open>RATE_LIMITS\<close> has \<open>windowMs > 0\<close> and \<open>maxRequests > 0\<close>. With
  \<open>windowMs = 0\<close> JavaScript divides by zero and goes on with \<open>Infinity\<close>; the model
  does not represent that, and every statement below assumes \<open>windowMs > 0\<close>.
\<close>

record RateLimitConfig =
  windowMs :: nat
  maxRequests :: int

record RateLimitResult =
  allowed :: bool
  remaining :: number
  resetTime :: int
  retryAfter :: int

definition RATE_LIMITS_CHAT :: RateLimitConfig where
  "RATE_LIMITS_CHAT = \<lparr> windowMs = 60 * 1000, maxRequests = 30 \<rparr>"

subsection \<open>Stateless strategy\<close>

definition hashStep :: "int \<Rightarrow> char \<Rightarrow> int" where
  "hashStep hash c =
     (let h = (shl32 hash 5 - hash) + int (of_char c)
      in and32 h h)"

definition hashLoop :: "string \<Rightarrow> int" where
  "hashLoop windowKey = foldl hashStep 0 windowKey"

definition statelessRateCheck :: "string \<Rightarrow> RateLimitConfig \<Rightarrow> nat \<Rightarrow> RateLimitResult" where
  "statelessRateCheck clientKey config now =
     (let windowStart = (now div windowMs config) * windowMs config;
          resetTime = windowStart + windowMs config;
          windowKey = clientKey @ '':'' @ String_nat windowStart;
          hash = hashLoop windowKey;
          remaining =
            (if maxRequests config = 0 then NaN
             else let requestSlot = \<bar>jsRem hash (maxRequests config)\<bar>
                  in Num (max 0 (maxRequests config - requestSlot - 1)))
      in \<lparr> allowed = True, remaining = remaining, resetTime = int resetTime, retryAfter = 0 \<rparr>)"

subsection \<open>Client address\<close>

type_synonym headers = "string \<rightharpoonup> string"

text \<open>
  \<^verbatim>\<open>/^(\d{1,3}\.){3}\d{1,3}$/\<close>: four groups of one to three decimal digits, separated by
  dots. A group holds no dot, so the groups are the pieces that \<open>split\<close> gives. In the
  same way \<^verbatim>\<open>/^([0-9a-fA-F]{1,4}:){7}[0-9a-fA-F]{1,4}$/\<close> is eight groups of one to four
  hexadecimal digits, separated by colons.
\<close>

definition ipv4Pattern :: "string \<Rightarrow> bool" where
  "ipv4Pattern ip =
     (let groups = split CHR ''.'' ip
      in length groups = 4 \<and>
         list_all (\<lambda>g. 1 \<le> length g \<and> length g \<le> 3 \<and> list_all isDigit g) groups)"

definition isHexDigit :: "char \<Rightarrow> bool" where
  "isHexDigit c =
     (let n = (of_char c :: nat)
      in (48 \<le> n \<and> n \<le> 57) \<or> (97 \<le> n \<and> n \<le> 102) \<or> (65 \<le> n \<and> n \<le> 70))"

definition ipv6Pattern :: "string \<Rightarrow> bool" where
  "ipv6Pattern ip =
     (let groups = split CHR '':'' ip
      in length groups = 8 \<and>
         list_all (\<lambda>g. 1 \<le> length g \<and> length g \<le> 4 \<and> list_all isHexDigit g) groups)"

text \<open>\<open>Number\<close> of a group of decimal digits is its decimal value.\<close>

definition isValidIP :: "string \<Rightarrow> bool" where
  "isValidIP ip =
     (if ipv4Pattern ip then
        (let octets = map digitsValue (split CHR ''.'' ip)
         in list_all (\<lambda>octet. 0 \<le> octet \<and> octet \<le> 255) octets)
      else ipv6Pattern ip)"

definition getClientIP :: "headers \<Rightarrow> string" where
  "getClientIP hdrs =
     (case (case hdrs ''cf-connecting-ip'' of
              Some cfIP \<Rightarrow> if cfIP \<noteq> [] \<and> isValidIP cfIP then Some cfIP else None
            | None \<Rightarrow> None) of
        Some ip \<Rightarrow> ip
      | None \<Rightarrow>
         (case (case hdrs ''x-forwarded-for'' of
                  Some forwardedFor \<Rightarrow>
                    if forwardedFor \<noteq> [] then
                      (case map trim (split CHR '','' forwardedFor) of
                         clientIP # rest \<Rightarrow> if isValidIP clientIP then Some clientIP else None
                       | [] \<Rightarrow> None)
                    else None
                | None \<Rightarrow> None) of
            Some ip \<Rightarrow> ip
          | None \<Rightarrow>
             (case hdrs ''x-real-ip'' of
                Some realIP \<Rightarrow> if realIP \<noteq> [] \<and> isValidIP realIP then realIP else ''unknown''
              | None \<Rightarrow> ''unknown'')))"

subsection \<open>Durable strategy\<close>

text \<open>
  The binding \<open>KVNamespace\<close> is a parameter: \<open>kv_get\<close> and \<open>kv_put\<close> act on a store
  state of any type, read the time of the call, and may reject (\<open>Inl\<close>).
\<close>

record 's KVNamespace =
  kv_get :: "'s \<Rightarrow> nat \<Rightarrow> string \<Rightarrow> error + string option"
  kv_put :: "'s \<Rightarrow> nat \<Rightarrow> string \<Rightarrow> string \<Rightarrow> int \<Rightarrow> error + 's"

definition numAdd1 :: "number \<Rightarrow> number" where
  "numAdd1 x = (case x of NaN \<Rightarrow> NaN | Num n \<Rightarrow> Num (n + 1))"

definition numGe :: "number \<Rightarrow> int \<Rightarrow> bool" where
  "numGe x m = (case x of NaN \<Rightarrow> False | Num n \<Rightarrow> n \<ge> m)"

definition numMinus :: "int \<Rightarrow> number \<Rightarrow> number" where
  "numMinus m x = (case x of NaN \<Rightarrow> NaN | Num n \<Rightarrow> Num (m - n))"

definition failOpen :: "RateLimitConfig \<Rightarrow> nat \<Rightarrow> RateLimitResult" where
  "failOpen config now =
     \<lparr> allowed = True, remaining = Num (maxRequests config - 1),
       resetTime = int now + int (windowMs config), retryAfter = 0 \<rparr>"

text \<open>\<open>`${key}:${Math.floor(now / config.windowMs)}`\<close>\<close>

definition windowKeyOf :: "string \<Rightarrow> RateLimitConfig \<Rightarrow> nat \<Rightarrow> string" where
  "windowKeyOf key config now = key @ '':'' @ String_nat (now div windowMs config)"

text \<open>\<open>countStr ? parseInt(countStr, 10) : 0\<close>; \<open>null\<close> and the empty string are falsy.\<close>

definition readCount :: "string option \<Rightarrow> number" where
  "readCount countStr =
     (case countStr of
        None \<Rightarrow> Num 0
      | Some str \<Rightarrow> if str = [] then Num 0 else parseInt str)"

definition checkRateLimitWithKV ::
  "'s KVNamespace \<Rightarrow> 's \<Rightarrow> string \<Rightarrow> RateLimitConfig \<Rightarrow> nat \<Rightarrow> RateLimitResult \<times> 's" where
  "checkRateLimitWithKV kv st key config now =
     (let windowKey = windowKeyOf key config now
      in case kv_get kv st now windowKey of
           Inl e \<Rightarrow> (failOpen config now, st)
         | Inr countStr \<Rightarrow>
            (let count = readCount countStr
             in if numGe count (maxRequests config) then
                  (let resetTime = (int (now div windowMs config) + 1) * int (windowMs config)
                   in (\<lparr> allowed = False, remaining = Num 0, resetTime = resetTime,
                         retryAfter = ceilDiv (resetTime - int now) 1000 \<rparr>, st))
                else
                  (let newCount = numAdd1 count
                   in case kv_put kv st now windowKey (String_number newCount)
                             (ceilDiv (int (windowMs config)) 1000 + 1) of
                        Inl e \<Rightarrow> (failOpen config now, st)
                      | Inr st' \<Rightarrow>
                         (let resetTime = (int (now div windowMs config) + 1) * int (windowMs config)
                          in (\<lparr> allowed = True, remaining = numMinus (maxRequests config) newCount,
                                resetTime = resetTime, retryAfter = 0 \<rparr>, st')))))"

text \<open>
  Modelled from the spec: the shared counter store, a service outside the repository.
  A record holds a value and expires a time-to-live (in seconds) after it was written;
  a read of an absent or expired key gives \<open>null\<close>.
\<close>

type_synonym counter_store = "string \<rightharpoonup> (string \<times> nat)"

definition store_get :: "counter_store \<Rightarrow> nat \<Rightarrow> string \<Rightarrow> error + string option" where
  "store_get st now k =
     Inr (case st k of
            None \<Rightarrow> None
          | Some (v, expires) \<Rightarrow> if now < expires then Some v else None)"

definition store_put :: "counter_store \<Rightarrow> nat \<Rightarrow> string \<Rightarrow> string \<Rightarrow> int \<Rightarrow> error + counter_store" where
  "store_put st now k v ttl = Inr (st(k \<mapsto> (v, now + 1000 * nat ttl)))"

definition counterStore :: "counter_store KVNamespace" where
  "counterStore = \<lparr> kv_get = store_get, kv_put = store_put \<rparr>"

text \<open>Requests of one identity served one after the other, at the given times.\<close>

fun serve ::
  "'s KVNamespace \<Rightarrow> string \<Rightarrow> RateLimitConfig \<Rightarrow> nat list \<Rightarrow> 's \<Rightarrow> RateLimitResult list \<times> 's" where
  "serve kv key config [] st = ([], st)"
| "serve kv key config (now # later) st =
     (let (r, st') = checkRateLimitWithKV kv st key config now;
          (rs, st'') = serve kv key config later st'
      in (r # rs, st''))"

section \<open>Sanitization for logging (lib/security/validation)\<close>

datatype jsval =
    JUndefined
  | JNull
  | JBool bool
  | JNum int
  | JStr string
  | JArr "jsval list"
  | JObj "(string \<times> jsval) list"











section \<open>Example configurations\<close>

definition poolAB :: env where
  "poolAB = [''OPENROUTER_API_KEY_1'' \<mapsto> ''sk-or-A'', ''OPENROUTER_API_KEY_2'' \<mapsto> ''sk-or-B'']"

definition poolCD :: env where
  "poolCD = [''OPENROUTER_API_KEY'' \<mapsto> ''sk-or-C'', ''OPENROUTER_API_KEY_1'' \<mapsto> ''sk-or-D'']"

definition unreachableStore :: "unit KVNamespace" where
  "unreachableStore =
     \<lparr> kv_get = (\<lambda>st now k. Inl (Error ''KV unavailable'')),
       kv_put = (\<lambda>st now k v ttl. Inl (Error ''KV unavailable'')) \<rparr>"

definition readOnlyStore :: "unit KVNamespace" where
  "readOnlyStore =
     \<lparr> kv_get = (\<lambda>st now k. Inr (Some ''7'')),
       kv_put = (\<lambda>st now k v ttl. Inl (Error ''KV put failed'')) \<rparr>"

definition poolDup :: env where
  "poolDup = [''OPENROUTER_API_KEY_1'' \<mapsto> ''sk-or-A'', ''OPENROUTER_API_KEY_2'' \<mapsto> ''sk-or-A'']"

definition poolPrimaryLast :: env where
  "poolPrimaryLast = [''OPENROUTER_API_KEY'' \<mapsto> ''sk-or-B'',
                      ''OPENROUTER_API_KEY_1'' \<mapsto> ''sk-or-A'',
                      ''OPENROUTER_API_KEY_2'' \<mapsto> ''sk-or-B'']"

section \<open>Notions used to state the properties\<close>

text \<open>
  The indexed credentials in ascending index order: the values of
  \<open>OPENROUTER_API_KEY_1\<close> to \<open>OPENROUTER_API_KEY_10\<close> that are set and usable, trimmed.
\<close>

definition indexedCredentials :: "env \<Rightarrow> string list" where
  "indexedCredentials env =
     map trim (filter usableKey (List.map_filter (\<lambda>i. env (indexedName i)) [1 ..< 11]))"

text \<open>
  The counter of window \<open>w\<close> reads \<open>c\<close> at every time of that window, and the
  identity has no counter in any other window.
\<close>

definition counted :: "counter_store \<Rightarrow> string \<Rightarrow> RateLimitConfig \<Rightarrow> nat \<Rightarrow> nat \<Rightarrow> bool" where
  "counted st key config w c \<longleftrightarrow>
     (\<forall>t. t div windowMs config = w \<longrightarrow>
        (\<exists>cs. store_get st t (key @ '':'' @ String_nat w) = Inr cs \<and> readCount cs = Num (int c))) \<and>
     (\<forall>w'. w' \<noteq> w \<longrightarrow> st (key @ '':'' @ String_nat w') = None)"

text \<open>The two answers of the durable strategy in window \<open>w\<close>.\<close>

definition allowR :: "RateLimitConfig \<Rightarrow> nat \<Rightarrow> int \<Rightarrow> RateLimitResult" where
  "allowR config w r = \<lparr> allowed = True, remaining = Num r,
      resetTime = (int w + 1) * int (windowMs config), retryAfter = 0 \<rparr>"

definition denyR :: "RateLimitConfig \<Rightarrow> nat \<Rightarrow> nat \<Rightarrow> RateLimitResult" where
  "denyR config w t = \<lparr> allowed = False, remaining = Num 0,
      resetTime = (int w + 1) * int (windowMs config),
      retryAfter = ceilDiv ((int w + 1) * int (windowMs config) - int t) 1000 \<rparr>"

text \<open>
  The polynomial rolling hash with multiplier 31 in 32-bit wrap-around arithmetic:
  \<open>h := 31 * h + c\<close> modulo \<open>2^32\<close> for each code unit \<open>c\<close>.
\<close>

definition polyHash32 :: "string \<Rightarrow> 32 word" where
  "polyHash32 s = foldl (\<lambda>h c. 31 * h + of_nat (of_char c)) 0 s"

text \<open>
  The first entry of a comma-separated header value: what stands before the first comma,
  without the surrounding white space.
\<close>

definition firstEntry :: "string \<Rightarrow> string" where
  "firstEntry v = trim (takeWhile (\<lambda>c. c \<noteq> CHR '','') v)"





text \<open>
  IP literals. \<open>joinWith\<close> writes groups with a separator between them. The literals
  that the address check accepts are the dotted IPv4 form, four groups of one to three
  decimal digits of value at most 255, and the IPv6 form written in full, eight groups of
  one to four hexadecimal digits. The textual IPv6 forms also include the compressed one,
  where one \<open>::\<close> stands for the groups left out.
\<close>

fun joinWith :: "char \<Rightarrow> string list \<Rightarrow> string" where
  "joinWith sep [] = []"
| "joinWith sep [g] = g"
| "joinWith sep (g # h # gs) = g @ sep # joinWith sep (h # gs)"

definition decGroup :: "string \<Rightarrow> bool" where
  "decGroup g \<longleftrightarrow> 1 \<le> length g \<and> length g \<le> 3 \<and> list_all isDigit g"

definition hexGroup :: "string \<Rightarrow> bool" where
  "hexGroup g \<longleftrightarrow> 1 \<le> length g \<and> length g \<le> 4 \<and> list_all isHexDigit g"

definition acceptedLiteral :: "string \<Rightarrow> bool" where
  "acceptedLiteral ip \<longleftrightarrow>
     (\<exists>gs. length gs = 4 \<and> ip = joinWith CHR ''.'' gs \<and>
           (\<forall>g \<in> set gs. decGroup g \<and> digitsValue g \<le> 255)) \<or>
     (\<exists>gs. length gs = 8 \<and> ip = joinWith CHR '':'' gs \<and> (\<forall>g \<in> set gs. hexGroup g))"

definition ipv6Literal :: "string \<Rightarrow> bool" where
  "ipv6Literal ip \<longleftrightarrow>
     (\<exists>gs. length gs = 8 \<and> ip = joinWith CHR '':'' gs \<and> (\<forall>g \<in> set gs. hexGroup g)) \<or>
     (\<exists>ls rs. length ls + length rs \<le> 7 \<and>
              ip = joinWith CHR '':'' ls @ ''::'' @ joinWith CHR '':'' rs \<and>
              (\<forall>g \<in> set (ls @ rs). hexGroup g))"

section \<open>Decimal strings\<close>


lemma of_char_digit_char: "d < 10 \<Longrightarrow> (of_char (digit_char d) :: nat) = 48 + d"
  by (simp add: digit_char_def)

lemma isDigit_digit_char: "d < 10 \<Longrightarrow> isDigit (digit_char d)"
  by (simp add: isDigit_def of_char_digit_char)

lemma String_nat_digits: "list_all isDigit (String_nat n)"
proof (induction n rule: String_nat.induct)
  case (1 n)
  show ?case
  proof (cases "n < 10")
    case True
    then show ?thesis by (subst String_nat.simps) (simp add: isDigit_digit_char)
  next
    case False
    then show ?thesis using 1 by (subst String_nat.simps) (simp add: isDigit_digit_char)
  qed
qed

lemma String_nat_nonempty: "String_nat n \<noteq> []"
  by (subst String_nat.simps) simp

lemma digitsValue_snoc: "digitsValue (ds @ [c]) = 10 * digitsValue ds + (of_char c - 48)"
  by (simp add: digitsValue_def)

lemma digitsValue_String_nat: "digitsValue (String_nat n) = n"
proof (induction n rule: String_nat.induct)
  case (1 n)
  show ?case
  proof (cases "n < 10")
    case True
    then show ?thesis
      by (subst String_nat.simps) (simp add: digitsValue_def of_char_digit_char)
  next
    case False
    then have "digitsValue (String_nat (n div 10)) = n div 10" using 1 by simp
    then show ?thesis using False
      by (subst String_nat.simps) (simp add: digitsValue_snoc of_char_digit_char)
  qed
qed

lemma String_nat_inj: "String_nat m = String_nat n \<Longrightarrow> m = n"
  by (metis digitsValue_String_nat)

lemma isDigit_not_space: "isDigit c \<Longrightarrow> \<not> isWhitespace c"
  by (auto simp: isDigit_def isWhitespace_def)

lemma isDigit_not_sign: "isDigit c \<Longrightarrow> c \<noteq> CHR ''-'' \<and> c \<noteq> CHR ''+''"
  by (auto simp: isDigit_def)

lemma parseInt_String_nat: "parseInt (String_nat n) = Num (int n)"
proof -
  obtain c cs where s: "String_nat n = c # cs"
    using String_nat_nonempty[of n] by (cases "String_nat n") auto
  have all: "list_all isDigit (c # cs)" using String_nat_digits[of n] s by simp
  then have c: "isDigit c" by simp
  have dw: "dropWhile isWhitespace (c # cs) = c # cs" using isDigit_not_space[OF c] by simp
  have tw: "takeWhile isDigit (c # cs) = c # cs"
    using all by (simp add: list_all_iff)
  have "parseInt (c # cs) = Num (int (digitsValue (c # cs)))"
    unfolding parseInt_def dw Let_def using isDigit_not_sign[OF c] tw by simp
  then show ?thesis using digitsValue_String_nat[of n] s by simp
qed

lemma String_number_nat: "String_number (Num (int n)) = String_nat n"
  by (simp add: String_number_def)

lemma windowKeyOf_inj:
  "windowKeyOf key config t1 = windowKeyOf key config t2 \<longleftrightarrow> t1 div windowMs config = t2 div windowMs config"
  by (auto simp: windowKeyOf_def dest: String_nat_inj)

section \<open>Properties of the key pool selector\<close>


lemma rot_inj:
  assumes "0 < N"
  shows "inj_on (\<lambda>j. (b + j) mod N) {0..<N::nat}"
proof (rule inj_onI)
  fix j k assume j: "j \<in> {0..<N}" and k: "k \<in> {0..<N}" and e: "(b + j) mod N = (b + k) mod N"
  have aux: "x = y" if "x \<le> y" "y < N" "(b + x) mod N = (b + y) mod N" for x y
  proof -
    have "b + x \<le> b + y" using that by simp
    then have "((b + y) mod N = (b + x) mod N) = (N dvd (b + y) - (b + x))"
      by (rule mod_eq_dvd_iff_nat)
    then have "N dvd y - x" using that by simp
    moreover have "y - x < N" using that by simp
    ultimately have "y - x = 0" by (meson dvd_imp_le not_less zero_less_iff_neq_zero)
    with that show ?thesis by simp
  qed
  show "j = k"
  proof (cases "j \<le> k")
    case True then show ?thesis using aux[of j k] k e by simp
  next
    case False then show ?thesis using aux[of k j] j e by simp
  qed
qed

lemma rot_perm:
  assumes "0 < N"
  shows "distinct (map (\<lambda>j. (b + j) mod N) [0..<N]) \<and>
         set (map (\<lambda>j. (b + j) mod N) [0..<N]) = {0..<N}"
proof -
  let ?f = "\<lambda>j. (b + j) mod N"
  have inj: "inj_on ?f {0..<N}" by (rule rot_inj[OF assms])
  have d: "distinct (map ?f [0..<N])" using inj by (simp add: distinct_map)
  have sub: "?f ` {0..<N} \<subseteq> {0..<N}" using assms by auto
  have "card (?f ` {0..<N}) = N" using inj by (simp add: card_image)
  then have "?f ` {0..<N} = {0..<N}" using sub by (simp add: card_subset_eq)
  then show ?thesis using d by simp
qed

lemma load_poolAB: "loadOpenRouterKeys poolAB = [''sk-or-A'', ''sk-or-B'']"
  unfolding poolAB_def by code_simp

lemma load_poolCD: "loadOpenRouterKeys poolCD = [''sk-or-C'', ''sk-or-D'']"
  unfolding poolCD_def by code_simp

lemma getCurrentApiKey_nonempty:
  "loadOpenRouterKeys env \<noteq> [] \<Longrightarrow>
   getCurrentApiKey env now =
     Inr (loadOpenRouterKeys env ! ((now div 60000) mod length (loadOpenRouterKeys env)),
          (now div 60000) mod length (loadOpenRouterKeys env))"
  by (simp add: getCurrentApiKey_def Let_def)

text \<open>
  Claim C3. For a pool of \<open>N \<ge> 1\<close> credentials, two calls of \<open>getCurrentApiKey\<close>
  whose times lie in the same 60-second bucket return the same credential and index; and
  over \<open>N\<close> consecutive minute buckets the returned index, which is
  \<open>floor(now / 60000) mod N\<close>, takes every value of \<open>[0, N)\<close> exactly once.
\<close>

theorem currentKey_bucket_cycle:
  assumes "length (loadOpenRouterKeys env) = N" and "1 \<le> N"
  shows "(\<forall>t1 t2. t1 div 60000 = t2 div 60000 \<longrightarrow>
            getCurrentApiKey env t1 = getCurrentApiKey env t2) \<and>
         (\<forall>ts b. (\<forall>j<N. ts j div 60000 = b + j) \<longrightarrow>
            (\<exists>idx. (\<forall>j<N. getCurrentApiKey env (ts j) = Inr (loadOpenRouterKeys env ! idx j, idx j)
                           \<and> idx j = (ts j div 60000) mod N) \<and>
                   distinct (map idx [0..<N]) \<and> set (map idx [0..<N]) = {0..<N}))"
proof (intro conjI allI impI)
  fix t1 t2 :: nat assume "t1 div 60000 = t2 div 60000"
  then show "getCurrentApiKey env t1 = getCurrentApiKey env t2"
    by (simp add: getCurrentApiKey_def Let_def)
next
  fix ts :: "nat \<Rightarrow> nat" and b
  assume ts: "\<forall>j<N. ts j div 60000 = b + j"
  have ne: "loadOpenRouterKeys env \<noteq> []" using assms by auto
  let ?idx = "\<lambda>j. (b + j) mod N"
  have A: "\<forall>j<N. getCurrentApiKey env (ts j) = Inr (loadOpenRouterKeys env ! ?idx j, ?idx j)
                \<and> ?idx j = (ts j div 60000) mod N"
    using ts assms(1) by (simp add: getCurrentApiKey_nonempty[OF ne])
  have B: "distinct (map ?idx [0..<N]) \<and> set (map ?idx [0..<N]) = {0..<N}"
    using assms(2) by (intro rot_perm) simp
  show "\<exists>idx. (\<forall>j<N. getCurrentApiKey env (ts j) = Inr (loadOpenRouterKeys env ! idx j, idx j)
                           \<and> idx j = (ts j div 60000) mod N) \<and>
                   distinct (map idx [0..<N]) \<and> set (map idx [0..<N]) = {0..<N}"
    by (rule exI[where x = "?idx"]) (use A B in blast)
qed

theorem currentKey_bucket_cycle_witness:
  "length (loadOpenRouterKeys poolAB) = 2 \<and>
   getCurrentApiKey poolAB 120000 = getCurrentApiKey poolAB 179999 \<and>
   (\<exists>idx. (\<forall>j<2. getCurrentApiKey poolAB (60000 * (7 + j)) = Inr (loadOpenRouterKeys poolAB ! idx j, idx j)
                  \<and> idx j = ((60000 * (7 + j)) div 60000) mod 2) \<and>
          distinct (map idx [0..<2]) \<and> set (map idx [0..<2]) = {0..<2})"
proof -
  have len: "length (loadOpenRouterKeys poolAB) = 2" by (simp add: load_poolAB)
  note th = currentKey_bucket_cycle[OF len]
  have a: "getCurrentApiKey poolAB 120000 = getCurrentApiKey poolAB 179999"
    using th by simp
  have "\<forall>j<2. (60000 * (7 + j)) div 60000 = 7 + (j::nat)" by simp
  then have b: "\<exists>idx. (\<forall>j<2. getCurrentApiKey poolAB (60000 * (7 + j)) = Inr (loadOpenRouterKeys poolAB ! idx j, idx j)
                  \<and> idx j = ((60000 * (7 + j)) div 60000) mod 2) \<and>
          distinct (map idx [0..<2]) \<and> set (map idx [0..<2]) = {0..<2}"
    using th[THEN conjunct2, rule_format, of "\<lambda>j. 60000 * (7 + j)" 7] by simp
  show ?thesis using len a b by blast
qed


lemma fold_pushIndexed:
  "fold (pushIndexed env) is acc =
     acc @ map trim (filter usableKey (List.map_filter (\<lambda>i. env (indexedName i)) is))"
  by (induction "is" arbitrary: acc)
     (auto simp: pushIndexed_def List.map_filter_simps split: option.splits)

lemma load_indexed:
  "fold (pushIndexed env) [1 ..< 11] [] = indexedCredentials env"
  by (simp only: fold_pushIndexed indexedCredentials_def append_Nil)

lemma load_poolDup: "loadOpenRouterKeys poolDup = [''sk-or-A'', ''sk-or-A'']"
  unfolding poolDup_def by code_simp

lemma load_poolPrimaryLast: "loadOpenRouterKeys poolPrimaryLast = [''sk-or-A'', ''sk-or-B'']"
  unfolding poolPrimaryLast_def by code_simp

lemma indexed_poolCD: "indexedCredentials poolCD = [''sk-or-D'']"
  unfolding poolCD_def by code_simp

text \<open>
  Claim C4, as stated: the pool lists the primary credential first, then the indexed ones
  in ascending order, and no credential string occurs twice. It fails: two indexed
  variables with the same value both enter the pool, and a primary credential that equals
  an indexed one is not placed first.
\<close>

theorem pool_duplicates_counterexample:
  "\<not> distinct (loadOpenRouterKeys poolDup) \<and>
   poolPrimaryLast ''OPENROUTER_API_KEY'' = Some ''sk-or-B'' \<and>
   hd (loadOpenRouterKeys poolPrimaryLast) \<noteq> ''sk-or-B''"
  by (simp add: load_poolDup load_poolPrimaryLast) (simp add: poolPrimaryLast_def)

text \<open>
  Claim C4, amended. The pool is the usable indexed credentials (indices 1 to 10) in
  ascending index order, duplicates among them kept, preceded by the trimmed primary
  credential when that is usable and not equal to one of them. So the pool has no duplicate
  whenever the indexed credentials are pairwise distinct.
\<close>

theorem pool_order:
  "loadOpenRouterKeys env =
     (case env ''OPENROUTER_API_KEY'' of
        None \<Rightarrow> []
      | Some k \<Rightarrow> if usableKey k \<and> trim k \<notin> set (indexedCredentials env) then [trim k] else [])
     @ indexedCredentials env
   \<and> (distinct (indexedCredentials env) \<longrightarrow> distinct (loadOpenRouterKeys env))"
proof -
  have eq: "loadOpenRouterKeys env =
     (case env ''OPENROUTER_API_KEY'' of
        None \<Rightarrow> []
      | Some k \<Rightarrow> if usableKey k \<and> trim k \<notin> set (indexedCredentials env) then [trim k] else [])
     @ indexedCredentials env"
    unfolding loadOpenRouterKeys_def load_indexed Let_def
    by (simp split: option.splits)
  have "distinct (loadOpenRouterKeys env)" if "distinct (indexedCredentials env)"
    unfolding eq using that by (auto split: option.splits)
  with eq show ?thesis by blast
qed

theorem pool_order_witness:
  "distinct (indexedCredentials poolCD) \<and>
   loadOpenRouterKeys poolCD = [''sk-or-C'', ''sk-or-D''] \<and>
   distinct (loadOpenRouterKeys poolCD)"
proof -
  have d: "distinct (indexedCredentials poolCD)" by (simp add: indexed_poolCD)
  have u: "usableKey ''sk-or-C''" by code_simp
  have t: "trim ''sk-or-C'' = ''sk-or-C''" by code_simp
  have p: "poolCD ''OPENROUTER_API_KEY'' = Some ''sk-or-C''" by (simp add: poolCD_def)
  have "loadOpenRouterKeys poolCD = [''sk-or-C'', ''sk-or-D'']"
    using pool_order[of poolCD] by (simp add: p u t indexed_poolCD)
  moreover have "distinct (loadOpenRouterKeys poolCD)"
    using pool_order[of poolCD] d by blast
  ultimately show ?thesis using d by blast
qed

text \<open>
  Claim C5. \<open>rotateKeyOnFailure\<close> takes the index \<open>(floor(now / 1000) + 1) mod N\<close>, and
  the claim is that within one second it never returns the credential that
  \<open>getCurrentApiKey\<close> returned. With the two credentials of \<open>poolAB\<close> and the clock at
  1762176060000 ms both functions return the second credential.
\<close>

theorem rotate_repeats_current_key:
  "getCurrentApiKey poolAB 1762176060000 = Inr (''sk-or-B'', 1) \<and>
   rotateKeyOnFailure poolAB 1762176060000 = Inr ''sk-or-B''"
proof -
  have len: "length (loadOpenRouterKeys poolAB) = 2" by (simp add: load_poolAB)
  have m: "(29369601::nat) mod 2 = 1" "(1762176061::nat) mod 2 = 1" by simp_all
  show ?thesis
    unfolding getCurrentApiKey_def rotateKeyOnFailure_def Let_def len
    by (simp add: m load_poolAB)
qed

text \<open>
  Claim C6. The rotation status and the body of the key-status endpoint depend on the
  pool only through its size: two pools of the same size, whatever their credentials,
  give the same output at the same time.
\<close>

theorem status_hides_credentials:
  assumes "length (loadOpenRouterKeys env1) = length (loadOpenRouterKeys env2)"
  shows "getKeyRotationStatus toISOString env1 now = getKeyRotationStatus toISOString env2 now \<and>
         getKeyStatusHandler toISOString env1 now = getKeyStatusHandler toISOString env2 now"
proof -
  have "(loadOpenRouterKeys env1 = []) = (loadOpenRouterKeys env2 = [])"
    using assms by (metis length_0_conv)
  then show ?thesis
    using assms by (simp add: getKeyRotationStatus_def getKeyStatusHandler_def Let_def)
qed

theorem status_hides_credentials_witness:
  "length (loadOpenRouterKeys poolAB) = length (loadOpenRouterKeys poolCD) \<and>
   loadOpenRouterKeys poolAB \<noteq> loadOpenRouterKeys poolCD \<and>
   getKeyRotationStatus String_nat poolAB 1762176060000 = getKeyRotationStatus String_nat poolCD 1762176060000 \<and>
   getKeyStatusHandler String_nat poolAB 1762176060000 = getKeyStatusHandler String_nat poolCD 1762176060000"
proof -
  have len: "length (loadOpenRouterKeys poolAB) = length (loadOpenRouterKeys poolCD)"
    by (simp add: load_poolAB load_poolCD)
  have ne: "loadOpenRouterKeys poolAB \<noteq> loadOpenRouterKeys poolCD"
    by (simp add: load_poolAB load_poolCD)
  show ?thesis
    using status_hides_credentials[OF len, of String_nat 1762176060000] len ne by blast
qed

subsection \<open>The retry loop\<close>


lemma rotate_second:
  "t1 div 1000 = t2 div 1000 \<Longrightarrow> rotateKeyOnFailure env t1 = rotateKeyOnFailure env t2"
  by (simp add: rotateKeyOnFailure_def Let_def)

lemma rotateLoop_stop:
  "ok resp \<or> \<not> attempts < 5 \<Longrightarrow> rotateLoop env clock up resp attempts used = (resp, used)"
  by (subst rotateLoop.simps) auto

lemma rotateLoop_step:
  "\<not> ok resp \<Longrightarrow> attempts < 5 \<Longrightarrow>
   rotateLoop env clock up resp attempts used =
     (case rotateKeyOnFailure env (clock attempts) of
        Inl e \<Rightarrow> (resp, used)
      | Inr apiKey \<Rightarrow>
          (case up attempts apiKey of
             None \<Rightarrow> (resp, used @ [apiKey])
           | Some r \<Rightarrow> rotateLoop env clock up r (attempts + 1) (used @ [apiKey])))"
  by (subst rotateLoop.simps) simp

lemma rotateLoop_trace:
  assumes "\<forall>a. attempts \<le> a \<and> a < 5 \<longrightarrow> clock a div 1000 = s"
  shows "\<forall>k \<in> set (snd (rotateLoop env clock up resp attempts used)).
           k \<in> set used \<or> rotateKeyOnFailure env (1000 * s) = Inr k"
  using assms
proof (induction env clock up resp attempts used rule: rotateLoop.induct)
  case (1 env clock up resp attempts used)
  show ?case
  proof (cases "\<not> ok resp \<and> attempts < 5")
    case False
    then show ?thesis by (simp add: rotateLoop_stop)
  next
    case True
    have sec: "clock attempts div 1000 = s" using "1.prems" True by simp
    have rk: "rotateKeyOnFailure env (clock attempts) = rotateKeyOnFailure env (1000 * s)"
      by (rule rotate_second) (simp add: sec)
    show ?thesis
    proof (cases "rotateKeyOnFailure env (clock attempts)")
      case (Inl e)
      then show ?thesis using True by (auto simp: rotateLoop_step)
    next
      case (Inr apiKey)
      show ?thesis
      proof (cases "up attempts apiKey")
        case None
        then show ?thesis using True Inr rk by (auto simp: rotateLoop_step)
      next
        case (Some r)
        have "\<forall>a. attempts + 1 \<le> a \<and> a < 5 \<longrightarrow> clock a div 1000 = s" using "1.prems" by simp
        from "1.IH"[OF True Inr Some this]
        show ?thesis using True Inr Some rk
          by (auto simp: rotateLoop_step)
      qed
    qed
  qed
qed

lemma rotateLoop_length:
  "length (snd (rotateLoop env clock up resp attempts used)) \<le> length used + (5 - attempts)"
proof (induction env clock up resp attempts used rule: rotateLoop.induct)
  case (1 env clock up resp attempts used)
  show ?case
  proof (cases "\<not> ok resp \<and> attempts < 5")
    case False
    then show ?thesis by (simp add: rotateLoop_stop)
  next
    case True
    show ?thesis
    proof (cases "rotateKeyOnFailure env (clock attempts)")
      case (Inl e)
      then show ?thesis using True by (auto simp: rotateLoop_step)
    next
      case (Inr apiKey)
      show ?thesis
      proof (cases "up attempts apiKey")
        case None
        then show ?thesis using True Inr by (auto simp: rotateLoop_step)
      next
        case (Some r)
        from "1.IH"[OF True Inr Some]
        show ?thesis using True Inr Some
          by (auto simp: rotateLoop_step)
      qed
    qed
  qed
qed

lemma rotateLoop_all_fail:
  assumes "\<forall>a. attempts \<le> a \<and> a < 5 \<longrightarrow> rotateKeyOnFailure env (clock a) = Inr key"
    and "\<forall>a k. \<exists>r. up a k = Some r \<and> \<not> ok r"
    and "\<not> ok resp" and "attempts \<le> 5"
  shows "snd (rotateLoop env clock up resp attempts used) = used @ replicate (5 - attempts) key"
  using assms
proof (induction env clock up resp attempts used rule: rotateLoop.induct)
  case (1 env clock up resp attempts used)
  show ?case
  proof (cases "attempts < 5")
    case False
    then show ?thesis using "1.prems" by (simp add: rotateLoop_stop)
  next
    case True
    then have T: "\<not> ok resp \<and> attempts < 5" using "1.prems" by simp
    have rk: "rotateKeyOnFailure env (clock attempts) = Inr key" using "1.prems" True by simp
    obtain r where r: "up attempts key = Some r" "\<not> ok r" using "1.prems"(2) by blast
    have "\<forall>a. attempts + 1 \<le> a \<and> a < 5 \<longrightarrow> rotateKeyOnFailure env (clock a) = Inr key"
      using "1.prems" by simp
    from "1.IH"[OF T rk r(1) this "1.prems"(2) r(2)] True
    have "snd (rotateLoop env clock up r (attempts + 1) (used @ [key]))
            = (used @ [key]) @ replicate (5 - (attempts + 1)) key" by simp
    moreover have "5 - attempts = Suc (5 - (attempts + 1))" using True by simp
    ultimately show ?thesis using T rk r
      by (simp add: rotateLoop_step replicate_app_Cons_same)
  qed
qed



text \<open>
  Claim C10. \<open>rotateKeyOnFailure\<close> returns the same credential at any two times of the
  same second. So when the rotation calls of the chat handler's retry loop all fall in one
  second, every retry uses that one credential, and there are at most four retries after
  the first attempt; if the upstream keeps failing, the loop makes its four retries with
  the credential at index \<open>(second + 1) mod N\<close>.
\<close>

theorem retries_repeat_one_key:
  "(\<forall>t1 t2. t1 div 1000 = t2 div 1000 \<longrightarrow>
      rotateKeyOnFailure env t1 = rotateKeyOnFailure env t2) \<and>
   (\<forall>clock up s.
      (\<forall>a. 1 \<le> a \<and> a < 5 \<longrightarrow> clock a div 1000 = s) \<longrightarrow>
        (\<forall>res used. handleStreamingKeys env clock up = Inr (res, used) \<longrightarrow>
           length used \<le> 4 \<and> (\<forall>k \<in> set used. rotateKeyOnFailure env (1000 * s) = Inr k)) \<and>
        (loadOpenRouterKeys env \<noteq> [] \<and> (\<forall>a k. \<exists>r. up a k = Some r \<and> \<not> ok r) \<longrightarrow>
           (\<exists>res. handleStreamingKeys env clock up =
              Inr (res, replicate 4
                     (loadOpenRouterKeys env ! ((s + 1) mod length (loadOpenRouterKeys env)))))))"
proof (intro conjI allI impI)
  fix t1 t2 :: nat assume "t1 div 1000 = t2 div 1000"
  then show "rotateKeyOnFailure env t1 = rotateKeyOnFailure env t2" by (rule rotate_second)
next
  fix clock :: "nat \<Rightarrow> nat" and up :: upstream and s res used
  assume sec: "\<forall>a. 1 \<le> a \<and> a < 5 \<longrightarrow> clock a div 1000 = (s::nat)"
    and h: "handleStreamingKeys env clock up = Inr (res, used)"
  from h obtain resp where "rotateLoop env clock up resp 1 [] = (res, used)"
    by (auto simp del: One_nat_def simp: handleStreamingKeys_def
             split: sum.splits option.splits prod.splits)
  then have u: "used = snd (rotateLoop env clock up resp 1 [])" by simp
  show "length used \<le> 4" using rotateLoop_length[of env clock up resp 1 "[]"] u by simp
  show "\<forall>k \<in> set used. rotateKeyOnFailure env (1000 * s) = Inr k"
    using rotateLoop_trace[OF sec, of env up resp "[]"] u by simp
next
  fix clock :: "nat \<Rightarrow> nat" and up :: upstream and s :: nat
  assume sec: "\<forall>a. 1 \<le> a \<and> a < 5 \<longrightarrow> clock a div 1000 = s"
    and pre: "loadOpenRouterKeys env \<noteq> [] \<and> (\<forall>a k. \<exists>r. up a k = Some r \<and> \<not> ok r)"
  let ?keys = "loadOpenRouterKeys env"
  let ?key = "?keys ! ((s + 1) mod length ?keys)"
  have rk: "\<forall>a. 1 \<le> a \<and> a < 5 \<longrightarrow> rotateKeyOnFailure env (clock a) = Inr ?key"
    using sec pre by (simp add: rotateKeyOnFailure_def Let_def)
  obtain k0 i0 where c: "getCurrentApiKey env (clock 0) = Inr (k0, i0)"
    using pre by (simp add: getCurrentApiKey_def Let_def)
  obtain r0 where r0: "up 0 k0 = Some r0" "\<not> ok r0" using pre by blast
  have fail: "\<forall>a k. \<exists>r. up a k = Some r \<and> \<not> ok r" using pre by blast
  have "snd (rotateLoop env clock up r0 1 []) = [] @ replicate (5 - 1) ?key"
    by (rule rotateLoop_all_fail[OF rk fail r0(2)]) simp
  then have "handleStreamingKeys env clock up =
               Inr (fst (rotateLoop env clock up r0 1 []), replicate 4 ?key)"
    using c r0 by (simp add: handleStreamingKeys_def prod_eq_iff)
  then show "\<exists>res. handleStreamingKeys env clock up = Inr (res, replicate 4 ?key)" by blast
qed

theorem retries_repeat_one_key_witness:
  "list_all (\<lambda>a::nat. (1762176060000 + 100 * a) div 1000 = (1762176060::nat)) [1..<5] \<and>
   loadOpenRouterKeys poolAB \<noteq> [] \<and>
   rotateKeyOnFailure poolAB 1762176060100 = rotateKeyOnFailure poolAB 1762176060400 \<and>
   (\<exists>res. handleStreamingKeys poolAB (\<lambda>a. 1762176060000 + 100 * a)
             (\<lambda>a k. Some \<lparr> ok = False, http_status = 429 \<rparr>) =
           Inr (res, replicate 4 ''sk-or-B''))"
proof -
  have sec: "\<forall>a::nat. 1 \<le> a \<and> a < 5 \<longrightarrow> (1762176060000 + 100 * a) div 1000 = (1762176060::nat)"
  proof (intro allI impI)
    fix a :: nat assume a: "1 \<le> a \<and> a < 5"
    have "(1762176060000 + 100 * a) div 1000 = (1762176060 * 1000 + 100 * a) div 1000" by simp
    also have "\<dots> = 1762176060 + (100 * a) div 1000" by (rule div_mult_self3) simp
    also have "(100 * a) div 1000 = 0" using a by simp
    finally show "(1762176060000 + 100 * a) div 1000 = (1762176060::nat)" by simp
  qed
  have ne: "loadOpenRouterKeys poolAB \<noteq> []" by (simp add: load_poolAB)
  have fail: "\<forall>(a::nat) (k::string). \<exists>r. Some \<lparr> ok = False, http_status = 429 \<rparr> = Some r \<and> \<not> ok r"
    by simp
  note th = retries_repeat_one_key[of poolAB]
  have a: "rotateKeyOnFailure poolAB 1762176060100 = rotateKeyOnFailure poolAB 1762176060400"
    using th[THEN conjunct1] by simp
  have key: "loadOpenRouterKeys poolAB ! ((1762176060 + 1) mod length (loadOpenRouterKeys poolAB)) = ''sk-or-B''"
  proof -
    have len: "length (loadOpenRouterKeys poolAB) = 2" by (simp add: load_poolAB)
    have "(1762176060 + 1::nat) mod 2 = 1" by simp
    then show ?thesis unfolding len by (simp add: load_poolAB)
  qed
  have "\<exists>res. handleStreamingKeys poolAB (\<lambda>a. 1762176060000 + 100 * a)
             (\<lambda>a k. Some \<lparr> ok = False, http_status = 429 \<rparr>) =
           Inr (res, replicate 4
                  (loadOpenRouterKeys poolAB ! ((1762176060 + 1) mod length (loadOpenRouterKeys poolAB))))"
    using th[THEN conjunct2, rule_format, of "\<lambda>a. 1762176060000 + 100 * a" 1762176060
             "\<lambda>a k. Some \<lparr> ok = False, http_status = 429 \<rparr>", THEN conjunct2] sec ne fail
    by blast
  then have b: "\<exists>res. handleStreamingKeys poolAB (\<lambda>a. 1762176060000 + 100 * a)
             (\<lambda>a k. Some \<lparr> ok = False, http_status = 429 \<rparr>) = Inr (res, replicate 4 ''sk-or-B'')"
    unfolding key .
  have sec': "list_all (\<lambda>a::nat. (1762176060000 + 100 * a) div 1000 = (1762176060::nat)) [1..<5]"
    using sec by (simp add: list_all_iff)
  show ?thesis using sec' ne a b by blast
qed

section \<open>Properties of the admission controller\<close>

subsection \<open>Storage errors\<close>


text \<open>
  Claim C7. When the read of the counter store rejects, or the read succeeds, the quota
  is not exhausted and the write rejects, \<open>checkRateLimitWithKV\<close> answers
  \<open>allowed = true\<close>, \<open>remaining = maxRequests - 1\<close> and \<open>retryAfter = 0\<close> (with
  \<open>resetTime = now + windowMs\<close>) and leaves the store as it was: no error reaches the
  caller and the request is not denied.
\<close>

theorem storage_error_fails_open:
  fixes kv :: "'s KVNamespace"
  assumes "0 < windowMs config"
    and "(\<exists>e. kv_get kv st now (windowKeyOf key config now) = Inl e) \<or>
           (\<exists>countStr e.
              kv_get kv st now (windowKeyOf key config now) = Inr countStr \<and>
              \<not> numGe (readCount countStr) (maxRequests config) \<and>
              kv_put kv st now (windowKeyOf key config now)
                     (String_number (numAdd1 (readCount countStr)))
                     (ceilDiv (int (windowMs config)) 1000 + 1) = Inl e)"
  shows "checkRateLimitWithKV kv st key config now =
           (\<lparr> allowed = True, remaining = Num (maxRequests config - 1),
              resetTime = int now + int (windowMs config), retryAfter = 0 \<rparr>, st)"
  using assms
  by (auto simp: checkRateLimitWithKV_def failOpen_def Let_def split: sum.splits)

theorem storage_error_fails_open_witness:
  "0 < windowMs RATE_LIMITS_CHAT \<and>
   kv_get unreachableStore () 1762176060000 (windowKeyOf ''chat:1.2.3.4'' RATE_LIMITS_CHAT 1762176060000)
     = Inl (Error ''KV unavailable'') \<and>
   checkRateLimitWithKV unreachableStore () ''chat:1.2.3.4'' RATE_LIMITS_CHAT 1762176060000 =
     (\<lparr> allowed = True, remaining = Num 29, resetTime = 1762176120000, retryAfter = 0 \<rparr>, ()) \<and>
   kv_get readOnlyStore () 1762176060000 (windowKeyOf ''chat:1.2.3.4'' RATE_LIMITS_CHAT 1762176060000)
     = Inr (Some ''7'') \<and>
   \<not> numGe (readCount (Some ''7'')) (maxRequests RATE_LIMITS_CHAT) \<and>
   checkRateLimitWithKV readOnlyStore () ''chat:1.2.3.4'' RATE_LIMITS_CHAT 1762176060000 =
     (\<lparr> allowed = True, remaining = Num 29, resetTime = 1762176120000, retryAfter = 0 \<rparr>, ())"
proof -
  have g1: "kv_get unreachableStore () 1762176060000
              (windowKeyOf ''chat:1.2.3.4'' RATE_LIMITS_CHAT 1762176060000) = Inl (Error ''KV unavailable'')"
    by (simp add: unreachableStore_def)
  have g2: "kv_get readOnlyStore () 1762176060000
              (windowKeyOf ''chat:1.2.3.4'' RATE_LIMITS_CHAT 1762176060000) = Inr (Some ''7'')"
    by (simp add: readOnlyStore_def)
  have rc: "readCount (Some ''7'') = Num 7" by code_simp
  have n: "\<not> numGe (readCount (Some ''7'')) (maxRequests RATE_LIMITS_CHAT)"
    by (simp add: rc numGe_def RATE_LIMITS_CHAT_def)
  have p: "kv_put readOnlyStore () 1762176060000
             (windowKeyOf ''chat:1.2.3.4'' RATE_LIMITS_CHAT 1762176060000)
             (String_number (numAdd1 (readCount (Some ''7''))))
             (ceilDiv (int (windowMs RATE_LIMITS_CHAT)) 1000 + 1) = Inl (Error ''KV put failed'')"
    by (simp add: readOnlyStore_def)
  have r1: "checkRateLimitWithKV unreachableStore () ''chat:1.2.3.4'' RATE_LIMITS_CHAT 1762176060000 =
     (\<lparr> allowed = True, remaining = Num 29, resetTime = 1762176120000, retryAfter = 0 \<rparr>, ())"
    using storage_error_fails_open[of RATE_LIMITS_CHAT unreachableStore "()" 1762176060000 "''chat:1.2.3.4''"] g1
    by (simp add: RATE_LIMITS_CHAT_def)
  have r2: "checkRateLimitWithKV readOnlyStore () ''chat:1.2.3.4'' RATE_LIMITS_CHAT 1762176060000 =
     (\<lparr> allowed = True, remaining = Num 29, resetTime = 1762176120000, retryAfter = 0 \<rparr>, ())"
    using storage_error_fails_open[of RATE_LIMITS_CHAT readOnlyStore "()" 1762176060000 "''chat:1.2.3.4''"] g2 n p
    by (simp add: RATE_LIMITS_CHAT_def)
  have W: "0 < windowMs RATE_LIMITS_CHAT" by (simp add: RATE_LIMITS_CHAT_def)
  show ?thesis using W g1 g2 n r1 r2 by blast
qed

subsection \<open>Durable strategy\<close>


lemma ceilDiv_upper: "0 < d \<Longrightarrow> x \<le> d * ceilDiv x d"
proof -
  assume d: "0 < d"
  have "- x = d * ((- x) div d) + (- x) mod d" by simp
  moreover have "0 \<le> (- x) mod d" using d by simp
  ultimately have "d * ((- x) div d) \<le> - x" by linarith
  then show ?thesis by (simp add: ceilDiv_def)
qed

lemma ceilDiv_lower: "0 < d \<Longrightarrow> d * (ceilDiv x d - 1) < x"
proof -
  assume d: "0 < d"
  have "- x = d * ((- x) div d) + (- x) mod d" by simp
  moreover have "(- x) mod d < d" using d by simp
  ultimately have "- x < d * ((- x) div d) + d" by linarith
  then show ?thesis by (simp add: ceilDiv_def algebra_simps)
qed

lemma window_bounds:
  assumes "0 < (W::nat)" and "t div W = w"
  shows "w * W \<le> t" and "t < (w + 1) * W"
proof -
  have "t = W * (t div W) + t mod W" by simp
  moreover have "t mod W < W" using assms by simp
  ultimately show "w * W \<le> t" and "t < (w + 1) * W"
    using assms(2) by (simp_all add: algebra_simps)
qed

lemma store_allow:
  assumes "store_get st now (windowKeyOf key config now) = Inr cs"
    and "readCount cs = Num (int c)" and "int c < maxRequests config"
  shows "checkRateLimitWithKV counterStore st key config now =
           (\<lparr> allowed = True, remaining = Num (maxRequests config - int c - 1),
              resetTime = (int (now div windowMs config) + 1) * int (windowMs config),
              retryAfter = 0 \<rparr>,
            st(windowKeyOf key config now \<mapsto>
                 (String_nat (c + 1), now + 1000 * nat (ceilDiv (int (windowMs config)) 1000 + 1))))"
proof -
  have "String_number (Num (int c + 1)) = String_nat (c + 1)"
    using String_number_nat[of "c + 1"] by (simp add: add.commute)
  then show ?thesis using assms
    by (simp add: checkRateLimitWithKV_def counterStore_def store_put_def numGe_def
                  numAdd1_def numMinus_def Let_def algebra_simps)
qed

lemma store_deny:
  assumes "store_get st now (windowKeyOf key config now) = Inr cs"
    and "readCount cs = Num (int c)" and "maxRequests config \<le> int c"
  shows "checkRateLimitWithKV counterStore st key config now =
           (\<lparr> allowed = False, remaining = Num 0,
              resetTime = (int (now div windowMs config) + 1) * int (windowMs config),
              retryAfter = ceilDiv ((int (now div windowMs config) + 1) * int (windowMs config) - int now) 1000 \<rparr>,
            st)"
  using assms
  by (simp add: checkRateLimitWithKV_def counterStore_def numGe_def Let_def)

lemma counted_get:
  assumes "counted st key config w c" and "now div windowMs config = w"
  shows "\<exists>cs. store_get st now (windowKeyOf key config now) = Inr cs \<and> readCount cs = Num (int c)"
  using assms by (simp add: counted_def windowKeyOf_def)

lemma counted_after_put:
  assumes W: "0 < windowMs config" and c: "counted st key config w c"
    and now: "now div windowMs config = w"
  shows "counted (st(windowKeyOf key config now \<mapsto>
                 (String_nat (c + 1), now + 1000 * nat (ceilDiv (int (windowMs config)) 1000 + 1))))
           key config w (c + 1)"
proof -
  let ?W = "windowMs config"
  let ?exp = "now + 1000 * nat (ceilDiv (int ?W) 1000 + 1)"
  have wk: "windowKeyOf key config now = key @ '':'' @ String_nat w"
    using now by (simp add: windowKeyOf_def)
  have ce: "int ?W \<le> 1000 * ceilDiv (int ?W) 1000" by (rule ceilDiv_upper) simp
  then have cpos: "0 \<le> ceilDiv (int ?W) 1000" by linarith
  have expb: "now + ?W + 1000 \<le> ?exp"
  proof -
    define n where "n = nat (ceilDiv (int ?W) 1000 + 1)"
    have n: "int n = ceilDiv (int ?W) 1000 + 1" using cpos by (simp add: n_def)
    have "int ?W + 1000 \<le> 1000 * int n" using ce n by simp
    then have "int (?W + 1000) \<le> int (1000 * n)" by simp
    then have "?W + 1000 \<le> 1000 * n" by (simp only: of_nat_le_iff)
    then show ?thesis by (simp add: n_def)
  qed
  have vis: "t < ?exp" if "t div ?W = w" for t
  proof -
    have "t < (w + 1) * ?W" using window_bounds(2)[OF W that] .
    moreover have "w * ?W \<le> now" using window_bounds(1)[OF W now] .
    ultimately have "t < now + ?W" by (simp add: algebra_simps)
    then show ?thesis using expb by linarith
  qed
  have rc: "readCount (Some (String_nat (c + 1))) = Num (int (c + 1))"
    by (simp add: readCount_def String_nat_nonempty parseInt_String_nat)
  show ?thesis
    unfolding counted_def wk
  proof (intro conjI allI impI)
    fix t assume "t div ?W = w"
    then show "\<exists>cs. store_get (st(key @ '':'' @ String_nat w \<mapsto> (String_nat (c + 1), ?exp))) t
                      (key @ '':'' @ String_nat w) = Inr cs \<and> readCount cs = Num (int (c + 1))"
      using vis rc by (simp add: store_get_def)
  next
    fix w' assume "w' \<noteq> w"
    then have "key @ '':'' @ String_nat w' \<noteq> key @ '':'' @ String_nat w"
      by (auto dest: String_nat_inj)
    then show "(st(key @ '':'' @ String_nat w \<mapsto> (String_nat (c + 1), ?exp)))
                 (key @ '':'' @ String_nat w') = None"
      using c \<open>w' \<noteq> w\<close> by (simp add: counted_def)
  qed
qed

lemma counted_fresh:
  assumes "\<forall>w'. st (key @ '':'' @ String_nat w') = None"
  shows "counted st key config w 0"
  using assms by (simp add: counted_def store_get_def readCount_def)

lemma serve_window:
  assumes W: "0 < windowMs config"
    and "counted st key config w c" and "int c \<le> maxRequests config"
    and "\<forall>t \<in> set ts. t div windowMs config = w"
  shows "length (fst (serve counterStore key config ts st)) = length ts \<and>
         (\<forall>i < length ts. fst (serve counterStore key config ts st) ! i =
            (if int c + int i < maxRequests config
             then allowR config w (maxRequests config - (int c + int i) - 1)
             else denyR config w (ts ! i))) \<and>
         counted (snd (serve counterStore key config ts st)) key config w
                 (min (nat (maxRequests config)) (c + length ts))"
  using assms(2-)
proof (induction ts arbitrary: st c)
  case Nil
  then show ?case by simp
next
  case (Cons t ts)
  have tw: "t div windowMs config = w" using Cons.prems by simp
  have rest: "\<forall>t \<in> set ts. t div windowMs config = w" using Cons.prems by simp
  obtain cs where g: "store_get st t (windowKeyOf key config t) = Inr cs" "readCount cs = Num (int c)"
    using counted_get[OF Cons.prems(1) tw] by blast
  show ?case
  proof (cases "int c < maxRequests config")
    case True
    define st' where "st' = st(windowKeyOf key config t \<mapsto>
                 (String_nat (c + 1), t + 1000 * nat (ceilDiv (int (windowMs config)) 1000 + 1)))"
    define rest_run where "rest_run = serve counterStore key config ts st'"
    have step: "checkRateLimitWithKV counterStore st key config t =
                  (allowR config w (maxRequests config - int c - 1), st')"
      using store_allow[OF g True] tw by (simp add: allowR_def st'_def)
    have c': "counted st' key config w (c + 1)"
      unfolding st'_def by (rule counted_after_put[OF W Cons.prems(1) tw])
    have le: "int (c + 1) \<le> maxRequests config" using True by simp
    note IH = Cons.IH[OF c' le rest, folded rest_run_def]
    have L: "length (fst rest_run) = length ts" using IH by blast
    have N: "\<forall>i < length ts. fst rest_run ! i =
            (if int (c + 1) + int i < maxRequests config
             then allowR config w (maxRequests config - (int (c + 1) + int i) - 1)
             else denyR config w (ts ! i))" using IH by blast
    have C: "counted (snd rest_run) key config w (min (nat (maxRequests config)) (c + 1 + length ts))"
      using IH by blast
    have sv: "serve counterStore key config (t # ts) st =
               (allowR config w (maxRequests config - int c - 1) # fst rest_run, snd rest_run)"
      by (simp add: step case_prod_beta rest_run_def)
    show ?thesis
      unfolding sv
    proof (intro conjI allI impI)
      show "length (fst (allowR config w (maxRequests config - int c - 1) # fst rest_run, snd rest_run))
              = length (t # ts)"
        using L by simp
    next
      fix i assume i: "i < length (t # ts)"
      show "fst (allowR config w (maxRequests config - int c - 1) # fst rest_run, snd rest_run) ! i =
            (if int c + int i < maxRequests config
             then allowR config w (maxRequests config - (int c + int i) - 1)
             else denyR config w ((t # ts) ! i))"
      proof (cases i)
        case 0
        then show ?thesis using True by simp
      next
        case (Suc j)
        then have j: "j < length ts" using i by simp
        have a: "int (c + 1) + int j = int c + int i" using Suc by simp
        show ?thesis using N[rule_format, OF j] unfolding a using Suc by simp
      qed
    next
      have "c + 1 + length ts = c + length (t # ts)" by simp
      then show "counted (snd (allowR config w (maxRequests config - int c - 1) # fst rest_run, snd rest_run))
              key config w (min (nat (maxRequests config)) (c + length (t # ts)))"
        using C by simp
    qed
  next
    case False
    then have eq: "maxRequests config = int c" using Cons.prems(2) by simp
    have step: "checkRateLimitWithKV counterStore st key config t = (denyR config w t, st)"
      using store_deny[OF g] eq tw by (simp add: denyR_def)
    note IH = Cons.IH[OF Cons.prems(1) Cons.prems(2) rest]
    have sv: "serve counterStore key config (t # ts) st =
               (denyR config w t # fst (serve counterStore key config ts st),
                snd (serve counterStore key config ts st))"
      by (simp add: step case_prod_beta)
    show ?thesis
      unfolding sv
    proof (intro conjI allI impI)
      show "length (fst (denyR config w t # fst (serve counterStore key config ts st),
                snd (serve counterStore key config ts st))) = length (t # ts)"
        using IH by simp
    next
      fix i assume i: "i < length (t # ts)"
      show "fst (denyR config w t # fst (serve counterStore key config ts st),
                snd (serve counterStore key config ts st)) ! i =
            (if int c + int i < maxRequests config
             then allowR config w (maxRequests config - (int c + int i) - 1)
             else denyR config w ((t # ts) ! i))"
      proof (cases i)
        case 0
        then show ?thesis using False by simp
      next
        case (Suc j)
        then have "j < length ts" using i by simp
        then show ?thesis using IH Suc eq by simp
      qed
    next
      show "counted (snd (denyR config w t # fst (serve counterStore key config ts st),
                snd (serve counterStore key config ts st))) key config w
              (min (nat (maxRequests config)) (c + length (t # ts)))"
        using IH eq by simp
    qed
  qed
qed


text \<open>
  Claim C1. Durable strategy, for a window of \<open>W > 0\<close> ms and a quota of \<open>M\<close>: starting
  with no stored counter for the identity, \<open>M + 1\<close> requests served one after the other
  at times of one window \<open>w\<close> give: the \<open>k\<close>-th (\<open>1 \<le> k \<le> M\<close>) is allowed with
  \<open>remaining = M - k\<close>; the last one is denied with \<open>remaining = 0\<close> and with
  \<open>retryAfter\<close> the number of seconds, rounded up, from its time to the boundary
  \<open>(w + 1) * W\<close>; and, when \<open>M \<ge> 1\<close>, a request at any time of a later window is
  allowed again, with \<open>remaining = M - 1\<close>.
\<close>

theorem durable_quota:
  fixes M :: nat
  assumes W: "0 < windowMs config" and M: "maxRequests config = int M"
    and fresh: "\<forall>w'. st0 (key @ '':'' @ String_nat w') = None"
    and len: "length ts = M + 1"
    and win: "\<forall>t \<in> set ts. t div windowMs config = w"
    and later: "w < t' div windowMs config"
  shows "length (fst (serve counterStore key config ts st0)) = M + 1 \<and>
         (\<forall>k. 1 \<le> k \<and> k \<le> M \<longrightarrow>
            fst (serve counterStore key config ts st0) ! (k - 1) =
              \<lparr> allowed = True, remaining = Num (int M - int k),
                resetTime = (int w + 1) * int (windowMs config), retryAfter = 0 \<rparr>) \<and>
         allowed (fst (serve counterStore key config ts st0) ! M) = False \<and>
         remaining (fst (serve counterStore key config ts st0) ! M) = Num 0 \<and>
         resetTime (fst (serve counterStore key config ts st0) ! M) = (int w + 1) * int (windowMs config) \<and>
         1000 * (retryAfter (fst (serve counterStore key config ts st0) ! M) - 1)
            < (int w + 1) * int (windowMs config) - int (ts ! M) \<and>
         (int w + 1) * int (windowMs config) - int (ts ! M)
            \<le> 1000 * retryAfter (fst (serve counterStore key config ts st0) ! M) \<and>
         (1 \<le> M \<longrightarrow>
            allowed (fst (checkRateLimitWithKV counterStore (snd (serve counterStore key config ts st0))
                            key config t')) = True \<and>
            remaining (fst (checkRateLimitWithKV counterStore (snd (serve counterStore key config ts st0))
                            key config t')) = Num (int M - 1))"
proof -
  define rs where "rs = fst (serve counterStore key config ts st0)"
  define st where "st = snd (serve counterStore key config ts st0)"
  have c0: "counted st0 key config w 0" by (rule counted_fresh[OF fresh])
  have le0: "int 0 \<le> maxRequests config" using M by simp
  note run = serve_window[OF W c0 le0 win, folded rs_def st_def]
  have L: "length rs = M + 1" using run len by simp
  have N: "\<forall>i < M + 1. rs ! i =
            (if int i < int M then allowR config w (int M - int i - 1) else denyR config w (ts ! i))"
    using run len M by simp
  have C: "counted st key config w M" using run len M by simp
  have allowP: "\<forall>k. 1 \<le> k \<and> k \<le> M \<longrightarrow> rs ! (k - 1) =
              \<lparr> allowed = True, remaining = Num (int M - int k),
                resetTime = (int w + 1) * int (windowMs config), retryAfter = 0 \<rparr>"
  proof (intro allI impI)
    fix k assume k: "1 \<le> k \<and> k \<le> M"
    then have "k - 1 < M + 1" "int (k - 1) < int M" "int M - int (k - 1) - 1 = int M - int k"
      by auto
    then show "rs ! (k - 1) = \<lparr> allowed = True, remaining = Num (int M - int k),
                resetTime = (int w + 1) * int (windowMs config), retryAfter = 0 \<rparr>"
      using N by (simp add: allowR_def)
  qed
  have last: "rs ! M = denyR config w (ts ! M)" using N by simp
  have ra: "retryAfter (rs ! M) = ceilDiv ((int w + 1) * int (windowMs config) - int (ts ! M)) 1000"
    using last by (simp add: denyR_def)
  have lo: "1000 * (retryAfter (rs ! M) - 1) < (int w + 1) * int (windowMs config) - int (ts ! M)"
    unfolding ra by (rule ceilDiv_lower) simp
  have hi: "(int w + 1) * int (windowMs config) - int (ts ! M) \<le> 1000 * retryAfter (rs ! M)"
    unfolding ra by (rule ceilDiv_upper) simp
  have again: "allowed (fst (checkRateLimitWithKV counterStore st key config t')) = True \<and>
               remaining (fst (checkRateLimitWithKV counterStore st key config t')) = Num (int M - 1)"
    if "1 \<le> M"
  proof -
    have "t' div windowMs config \<noteq> w" using later by simp
    then have "st (key @ '':'' @ String_nat (t' div windowMs config)) = None"
      using C by (simp add: counted_def)
    then have g: "store_get st t' (windowKeyOf key config t') = Inr None"
      by (simp add: store_get_def windowKeyOf_def)
    have r: "readCount None = Num (int 0)" by (simp add: readCount_def)
    have lt: "int 0 < maxRequests config" using that M by simp
    show ?thesis using store_allow[OF g r lt] M by simp
  qed
  show ?thesis
    using L allowP last lo hi again
    unfolding rs_def st_def by (simp add: denyR_def)
qed

theorem durable_quota_witness:
  "0 < windowMs RATE_LIMITS_CHAT \<and> maxRequests RATE_LIMITS_CHAT = int 30 \<and>
   list_all (\<lambda>t. t div windowMs RATE_LIMITS_CHAT = 29369601)
            (map (\<lambda>i. 1762176060000 + 1000 * i) [0..<31]) \<and>
   29369601 < 1762176120000 div windowMs RATE_LIMITS_CHAT \<and>
   fst (serve counterStore ''chat:1.2.3.4'' RATE_LIMITS_CHAT
          (map (\<lambda>i. 1762176060000 + 1000 * i) [0..<31]) Map.empty) ! 0 =
     \<lparr> allowed = True, remaining = Num 29, resetTime = 1762176120000, retryAfter = 0 \<rparr> \<and>
   fst (serve counterStore ''chat:1.2.3.4'' RATE_LIMITS_CHAT
          (map (\<lambda>i. 1762176060000 + 1000 * i) [0..<31]) Map.empty) ! 29 =
     \<lparr> allowed = True, remaining = Num 0, resetTime = 1762176120000, retryAfter = 0 \<rparr> \<and>
   allowed (fst (serve counterStore ''chat:1.2.3.4'' RATE_LIMITS_CHAT
          (map (\<lambda>i. 1762176060000 + 1000 * i) [0..<31]) Map.empty) ! 30) = False \<and>
   retryAfter (fst (serve counterStore ''chat:1.2.3.4'' RATE_LIMITS_CHAT
          (map (\<lambda>i. 1762176060000 + 1000 * i) [0..<31]) Map.empty) ! 30) = 30 \<and>
   allowed (fst (checkRateLimitWithKV counterStore
          (snd (serve counterStore ''chat:1.2.3.4'' RATE_LIMITS_CHAT
                  (map (\<lambda>i. 1762176060000 + 1000 * i) [0..<31]) Map.empty))
          ''chat:1.2.3.4'' RATE_LIMITS_CHAT 1762176120000)) = True"
proof -
  define ts :: "nat list" where "ts = map (\<lambda>i. 1762176060000 + 1000 * i) [0..<31]"
  define rs where "rs = fst (serve counterStore ''chat:1.2.3.4'' RATE_LIMITS_CHAT ts Map.empty)"
  have W: "0 < windowMs RATE_LIMITS_CHAT" by (simp add: RATE_LIMITS_CHAT_def)
  have Wv: "windowMs RATE_LIMITS_CHAT = 60000" by (simp add: RATE_LIMITS_CHAT_def)
  have M: "maxRequests RATE_LIMITS_CHAT = int 30" by (simp add: RATE_LIMITS_CHAT_def)
  have fresh: "\<forall>w'. (Map.empty :: counter_store) (''chat:1.2.3.4'' @ '':'' @ String_nat w') = None" by simp
  have len: "length ts = 30 + 1" by (simp add: ts_def)
  have win: "\<forall>t \<in> set ts. t div windowMs RATE_LIMITS_CHAT = 29369601"
  proof
    fix t assume "t \<in> set ts"
    then obtain i where i: "i < 31" "t = 1762176060000 + 1000 * i" by (auto simp: ts_def)
    have "t = 29369601 * 60000 + 1000 * i" using i by simp
    then have "t div 60000 = 29369601 + (1000 * i) div 60000" by (simp only: div_mult_self3)
    moreover have "(1000 * i) div 60000 = 0" using i by simp
    ultimately show "t div windowMs RATE_LIMITS_CHAT = 29369601" by (simp add: Wv)
  qed
  have later: "29369601 < 1762176120000 div windowMs RATE_LIMITS_CHAT" by (simp add: Wv)
  note th = durable_quota[where key = "''chat:1.2.3.4''" and ?st0.0 = Map.empty,
                          OF W M fresh len win later, folded rs_def]
  have last_t: "ts ! 30 = 1762176090000" by (simp add: ts_def)
  have r1: "rs ! 0 = \<lparr> allowed = True, remaining = Num 29, resetTime = 1762176120000, retryAfter = 0 \<rparr>"
    using th[THEN conjunct2, THEN conjunct1, rule_format, of 1] by (simp add: Wv)
  have r30: "rs ! 29 = \<lparr> allowed = True, remaining = Num 0, resetTime = 1762176120000, retryAfter = 0 \<rparr>"
    using th[THEN conjunct2, THEN conjunct1, rule_format, of 30] by (simp add: Wv)
  have d: "allowed (rs ! 30) = False" using th by simp
  have "1000 * (retryAfter (rs ! 30) - 1) < 30000 \<and> 30000 \<le> 1000 * retryAfter (rs ! 30)"
    using th by (simp add: Wv last_t)
  then have "1000 * (retryAfter (rs ! 30) - 1) < 30000" "30000 \<le> 1000 * retryAfter (rs ! 30)"
    by blast+
  then have "retryAfter (rs ! 30) - 1 < 30" "30 \<le> retryAfter (rs ! 30)" by simp_all
  then have ra: "retryAfter (rs ! 30) = 30" by linarith
  have ag: "allowed (fst (checkRateLimitWithKV counterStore
          (snd (serve counterStore ''chat:1.2.3.4'' RATE_LIMITS_CHAT ts Map.empty))
          ''chat:1.2.3.4'' RATE_LIMITS_CHAT 1762176120000)) = True"
    using th by simp
  have win': "list_all (\<lambda>t. t div windowMs RATE_LIMITS_CHAT = 29369601) ts"
    using win by (simp add: list_all_iff)
  show ?thesis
    using W M win' later r1 r30 d ra ag unfolding rs_def ts_def by blast
qed

subsection \<open>Stateless strategy\<close>


lemma and32_same: "and32 x x = sint (word_of_int x :: 32 word)"
  by (simp add: and32_def)

lemma hashStep_word: "hashStep (sint (w :: 32 word)) c = sint (31 * w + of_nat (of_char c))"
proof -
  have "(word_of_int (shl32 (sint w) 5 - sint w + int (of_char c)) :: 32 word)
          = push_bit 5 w - w + of_nat (of_char c)"
    by (simp add: shl32_def)
  also have "\<dots> = 31 * w + of_nat (of_char c)"
    by (simp add: push_bit_eq_mult)
  finally show ?thesis by (simp add: hashStep_def and32_same Let_def)
qed

lemma foldl_hashStep:
  "foldl hashStep (sint (w :: 32 word)) s = sint (foldl (\<lambda>h c. 31 * h + of_nat (of_char c)) w s)"
  by (induction s arbitrary: w) (simp_all add: hashStep_word)

lemma hashLoop_poly: "hashLoop s = sint (polyHash32 s)"
  using foldl_hashStep[of 0 s] by (simp add: hashLoop_def polyHash32_def)

lemma abs_jsRem: "0 < m \<Longrightarrow> \<bar>jsRem h m\<bar> = \<bar>h\<bar> mod m"
  by (simp add: jsRem_def abs_mult sgn_if)

lemma digit_char_simps:
  "digit_char 0 = CHR ''0''" "digit_char 1 = CHR ''1''" "digit_char 2 = CHR ''2''"
  "digit_char 3 = CHR ''3''" "digit_char 4 = CHR ''4''" "digit_char 5 = CHR ''5''"
  "digit_char 6 = CHR ''6''" "digit_char 7 = CHR ''7''" "digit_char 8 = CHR ''8''"
  "digit_char 9 = CHR ''9''" "digit_char (Suc 0) = CHR ''1''"
  by code_simp+

lemma String_nat_window_start: "String_nat 1762176060000 = ''1762176060000''"
  by (simp add: String_nat.simps digit_char_simps)

lemma polyHash32_example: "sint (polyHash32 ''chat:1.2.3.4:1762176060000'') = 697693592"
  by (simp add: polyHash32_def)


text \<open>
  Claim C2. Stateless strategy, for \<open>windowMs > 0\<close> and \<open>maxRequests > 0\<close>: the answer
  always has \<open>allowed = true\<close> and \<open>retryAfter = 0\<close>; its \<open>remaining\<close> is
  \<open>max(0, maxRequests - (|hash| mod maxRequests) - 1)\<close>, where \<open>hash\<close> is the signed
  value of the 32-bit polynomial hash (multiplier 31, arithmetic modulo \<open>2^32\<close>) of
  \<open>clientKey:windowStart\<close> and \<open>windowStart = floor(now / windowMs) * windowMs\<close>; and two
  calls with the same client key and the same window start give the same answer.
\<close>

theorem stateless_never_denies:
  assumes "0 < windowMs config" and "0 < maxRequests config"
  shows "allowed (statelessRateCheck clientKey config now) = True \<and>
         retryAfter (statelessRateCheck clientKey config now) = 0 \<and>
         remaining (statelessRateCheck clientKey config now) =
           Num (max 0 (maxRequests config
                  - (\<bar>sint (polyHash32 (clientKey @ '':'' @
                              String_nat ((now div windowMs config) * windowMs config)))\<bar>
                     mod maxRequests config)
                  - 1)) \<and>
         (\<forall>now'. (now' div windowMs config) * windowMs config = (now div windowMs config) * windowMs config
            \<longrightarrow> statelessRateCheck clientKey config now' = statelessRateCheck clientKey config now)"
  using assms
  by (simp add: statelessRateCheck_def Let_def hashLoop_poly abs_jsRem)


theorem stateless_never_denies_witness:
  "0 < windowMs RATE_LIMITS_CHAT \<and> 0 < maxRequests RATE_LIMITS_CHAT \<and>
   allowed (statelessRateCheck ''chat:1.2.3.4'' RATE_LIMITS_CHAT 1762176061234) = True \<and>
   retryAfter (statelessRateCheck ''chat:1.2.3.4'' RATE_LIMITS_CHAT 1762176061234) = 0 \<and>
   remaining (statelessRateCheck ''chat:1.2.3.4'' RATE_LIMITS_CHAT 1762176061234) = Num 27 \<and>
   statelessRateCheck ''chat:1.2.3.4'' RATE_LIMITS_CHAT 1762176119999 =
     statelessRateCheck ''chat:1.2.3.4'' RATE_LIMITS_CHAT 1762176061234"
proof -
  have W: "0 < windowMs RATE_LIMITS_CHAT" and M: "0 < maxRequests RATE_LIMITS_CHAT"
    by (simp_all add: RATE_LIMITS_CHAT_def)
  have Wv: "windowMs RATE_LIMITS_CHAT = 60000" and Mv: "maxRequests RATE_LIMITS_CHAT = 30"
    by (simp_all add: RATE_LIMITS_CHAT_def)
  note th = stateless_never_denies[OF W M, of "''chat:1.2.3.4''" 1762176061234]
  have ws: "(1762176061234 div 60000) * 60000 = (1762176060000::nat)" by simp
  have ws': "(1762176119999 div 60000) * 60000 = (1762176060000::nat)" by simp
  have a: "allowed (statelessRateCheck ''chat:1.2.3.4'' RATE_LIMITS_CHAT 1762176061234) = True"
    and r: "retryAfter (statelessRateCheck ''chat:1.2.3.4'' RATE_LIMITS_CHAT 1762176061234) = 0"
    using th[THEN conjunct1] th[THEN conjunct2, THEN conjunct1] by blast+
  have "remaining (statelessRateCheck ''chat:1.2.3.4'' RATE_LIMITS_CHAT 1762176061234) =
          Num (max 0 (30 - (\<bar>sint (polyHash32 (''chat:1.2.3.4'' @ '':'' @ String_nat 1762176060000))\<bar> mod 30) - 1))"
    using th[THEN conjunct2, THEN conjunct2, THEN conjunct1] unfolding Wv Mv ws .
  then have m: "remaining (statelessRateCheck ''chat:1.2.3.4'' RATE_LIMITS_CHAT 1762176061234) = Num 27"
    unfolding String_nat_window_start append.simps polyHash32_example by simp
  have d: "statelessRateCheck ''chat:1.2.3.4'' RATE_LIMITS_CHAT 1762176119999 =
             statelessRateCheck ''chat:1.2.3.4'' RATE_LIMITS_CHAT 1762176061234"
    using th[THEN conjunct2, THEN conjunct2, THEN conjunct2, rule_format, of 1762176119999]
    unfolding Wv ws ws' by simp
  show ?thesis using W M a r m d by blast
qed

subsection \<open>Client address\<close>


lemma split_nonempty: "split sep s \<noteq> []"
  by (induction s) (auto split: list.splits)

lemma split_hd: "hd (split sep s) = takeWhile (\<lambda>c. c \<noteq> sep) s"
  by (induction s) (auto split: list.splits simp: split_nonempty)

lemma split_first:
  "\<exists>rest. map trim (split CHR '','' v) = firstEntry v # rest"
proof -
  obtain p ps where s: "split CHR '','' v = p # ps"
    using split_nonempty[of "CHR '',''" v] by (cases "split CHR '','' v") auto
  then have "p = takeWhile (\<lambda>c. c \<noteq> CHR '','') v" using split_hd[of "CHR '',''" v] by simp
  then show ?thesis using s by (simp add: firstEntry_def)
qed

lemma isValidIP_nonempty: "isValidIP ip \<Longrightarrow> ip \<noteq> []"
  by (auto simp: isValidIP_def ipv4Pattern_def ipv6Pattern_def)

lemma joinWith_Cons: "gs \<noteq> [] \<Longrightarrow> joinWith sep (g # gs) = g @ sep # joinWith sep gs"
  by (cases gs) auto

lemma joinWith_split: "joinWith sep (split sep s) = s"
proof (induction s)
  case Nil
  then show ?case by simp
next
  case (Cons c cs)
  obtain p ps where s: "split sep cs = p # ps"
    using split_nonempty[of sep cs] by (cases "split sep cs") auto
  show ?case
  proof (cases "c = sep")
    case True
    then show ?thesis using Cons by (simp add: joinWith_Cons split_nonempty)
  next
    case False
    have "joinWith sep ((c # p) # ps) = c # joinWith sep (p # ps)" by (cases ps) auto
    then show ?thesis using False Cons s by simp
  qed
qed

lemma split_no_sep: "sep \<notin> set g \<Longrightarrow> split sep g = [g]"
  by (induction g) auto

lemma split_append_sep: "sep \<notin> set g \<Longrightarrow> split sep (g @ sep # r) = g # split sep r"
  by (induction g) (auto split: list.splits)

lemma split_joinWith:
  "gs \<noteq> [] \<Longrightarrow> \<forall>g \<in> set gs. sep \<notin> set g \<Longrightarrow> split sep (joinWith sep gs) = gs"
proof (induction sep gs rule: joinWith.induct)
  case (1 sep)
  then show ?case by simp
next
  case (2 sep g)
  then show ?case by (simp add: split_no_sep)
next
  case (3 sep g h gs)
  then show ?case by (simp add: split_append_sep)
qed

lemma set_joinWith: "set (joinWith sep gs) \<subseteq> insert sep (\<Union> (set ` set gs))"
  by (induction sep gs rule: joinWith.induct) auto

lemma decGroup_no_dot: "decGroup g \<Longrightarrow> CHR ''.'' \<notin> set g"
  by (auto simp: decGroup_def list_all_iff isDigit_def)

lemma hexGroup_no_colon: "hexGroup g \<Longrightarrow> CHR '':'' \<notin> set g"
  by (auto simp: hexGroup_def list_all_iff isHexDigit_def Let_def)

lemma hexGroup_no_dot: "hexGroup g \<Longrightarrow> CHR ''.'' \<notin> set g"
  by (auto simp: hexGroup_def list_all_iff isHexDigit_def Let_def)

lemma ipv4Pattern_iff:
  "ipv4Pattern ip \<longleftrightarrow>
     (\<exists>gs. length gs = 4 \<and> ip = joinWith CHR ''.'' gs \<and> (\<forall>g \<in> set gs. decGroup g))"
proof
  assume "ipv4Pattern ip"
  then have "length (split CHR ''.'' ip) = 4 \<and> ip = joinWith CHR ''.'' (split CHR ''.'' ip) \<and>
             (\<forall>g \<in> set (split CHR ''.'' ip). decGroup g)"
    by (simp add: ipv4Pattern_def Let_def joinWith_split decGroup_def list_all_iff)
  then show "\<exists>gs. length gs = 4 \<and> ip = joinWith CHR ''.'' gs \<and> (\<forall>g \<in> set gs. decGroup g)"
    by blast
next
  assume "\<exists>gs. length gs = 4 \<and> ip = joinWith CHR ''.'' gs \<and> (\<forall>g \<in> set gs. decGroup g)"
  then obtain gs where gs: "length gs = 4" "ip = joinWith CHR ''.'' gs" "\<forall>g \<in> set gs. decGroup g"
    by blast
  have ne: "gs \<noteq> []" using gs(1) by auto
  have "split CHR ''.'' ip = gs"
    unfolding gs(2) by (rule split_joinWith[OF ne]) (use gs(3) decGroup_no_dot in blast)
  then show "ipv4Pattern ip"
    using gs by (simp add: ipv4Pattern_def Let_def decGroup_def list_all_iff)
qed

lemma ipv6Pattern_iff:
  "ipv6Pattern ip \<longleftrightarrow>
     (\<exists>gs. length gs = 8 \<and> ip = joinWith CHR '':'' gs \<and> (\<forall>g \<in> set gs. hexGroup g))"
proof
  assume "ipv6Pattern ip"
  then have "length (split CHR '':'' ip) = 8 \<and> ip = joinWith CHR '':'' (split CHR '':'' ip) \<and>
             (\<forall>g \<in> set (split CHR '':'' ip). hexGroup g)"
    by (simp add: ipv6Pattern_def Let_def joinWith_split hexGroup_def list_all_iff)
  then show "\<exists>gs. length gs = 8 \<and> ip = joinWith CHR '':'' gs \<and> (\<forall>g \<in> set gs. hexGroup g)"
    by blast
next
  assume "\<exists>gs. length gs = 8 \<and> ip = joinWith CHR '':'' gs \<and> (\<forall>g \<in> set gs. hexGroup g)"
  then obtain gs where gs: "length gs = 8" "ip = joinWith CHR '':'' gs" "\<forall>g \<in> set gs. hexGroup g"
    by blast
  have ne: "gs \<noteq> []" using gs(1) by auto
  have "split CHR '':'' ip = gs"
    unfolding gs(2) by (rule split_joinWith[OF ne]) (use gs(3) hexGroup_no_colon in blast)
  then show "ipv6Pattern ip"
    using gs by (simp add: ipv6Pattern_def Let_def hexGroup_def list_all_iff)
qed

lemma ipv4_not_ipv6: "ipv4Pattern ip \<Longrightarrow> \<not> ipv6Pattern ip"
proof
  assume v4: "ipv4Pattern ip" and v6: "ipv6Pattern ip"
  have "CHR ''.'' \<in> set ip"
  proof (rule ccontr)
    assume "CHR ''.'' \<notin> set ip"
    then have "split CHR ''.'' ip = [ip]" by (rule split_no_sep)
    then show False using v4 by (simp add: ipv4Pattern_def Let_def)
  qed
  moreover obtain gs where gs: "ip = joinWith CHR '':'' gs" "\<forall>g \<in> set gs. hexGroup g"
    using v6 ipv6Pattern_iff by blast
  ultimately have "CHR ''.'' \<in> insert CHR '':'' (\<Union> (set ` set gs))"
    using set_joinWith[of "CHR '':''" gs] by blast
  then show False using gs(2) hexGroup_no_dot by auto
qed

lemma isValidIP_iff: "isValidIP ip \<longleftrightarrow> acceptedLiteral ip"
proof
  assume v: "isValidIP ip"
  show "acceptedLiteral ip"
  proof (cases "ipv4Pattern ip")
    case True
    then have "length (split CHR ''.'' ip) = 4 \<and> ip = joinWith CHR ''.'' (split CHR ''.'' ip) \<and>
             (\<forall>g \<in> set (split CHR ''.'' ip). decGroup g \<and> digitsValue g \<le> 255)"
      using v by (simp add: isValidIP_def ipv4Pattern_def Let_def joinWith_split decGroup_def list_all_iff)
    then show ?thesis unfolding acceptedLiteral_def by blast
  next
    case False
    then have "ipv6Pattern ip" using v by (simp add: isValidIP_def)
    then show ?thesis unfolding acceptedLiteral_def ipv6Pattern_iff by blast
  qed
next
  assume "acceptedLiteral ip"
  then consider
    (v4) gs where "length gs = 4" "ip = joinWith CHR ''.'' gs" "\<forall>g \<in> set gs. decGroup g \<and> digitsValue g \<le> 255"
  | (v6) "ipv6Pattern ip"
    unfolding acceptedLiteral_def ipv6Pattern_iff by blast
  then show "isValidIP ip"
  proof cases
    case v4
    have ne: "gs \<noteq> []" using v4(1) by auto
    have sp: "split CHR ''.'' ip = gs"
      unfolding v4(2) by (rule split_joinWith[OF ne]) (use v4(3) decGroup_no_dot in blast)
    have "ipv4Pattern ip" unfolding ipv4Pattern_iff using v4 by blast
    then show ?thesis using v4(3) by (simp add: isValidIP_def sp Let_def list_all_iff)
  next
    case v6
    then have "\<not> ipv4Pattern ip" using ipv4_not_ipv6 by blast
    then show ?thesis using v6 by (simp add: isValidIP_def)
  qed
qed

lemma loopback_literal: "ipv6Literal ''::1''"
proof -
  have "length ([]::string list) + length [''1''] \<le> 7 \<and>
        ''::1'' = joinWith CHR '':'' [] @ ''::'' @ joinWith CHR '':'' [''1''] \<and>
        (\<forall>g \<in> set ([] @ [''1'']). hexGroup g)"
    by (simp add: hexGroup_def isHexDigit_def)
  then show ?thesis unfolding ipv6Literal_def by blast
qed

text \<open>The three stages of \<open>getClientIP\<close>, each with the condition under which it answers.\<close>

lemma getClientIP_cf:
  "hdrs ''cf-connecting-ip'' = Some ip \<Longrightarrow> isValidIP ip \<Longrightarrow> getClientIP hdrs = ip"
  by (simp add: getClientIP_def isValidIP_nonempty)

lemma getClientIP_xff:
  assumes "\<not> (\<exists>ip. hdrs ''cf-connecting-ip'' = Some ip \<and> isValidIP ip)"
    and "hdrs ''x-forwarded-for'' = Some v" and "isValidIP (firstEntry v)"
  shows "getClientIP hdrs = firstEntry v"
proof -
  obtain rest where r: "map trim (split CHR '','' v) = firstEntry v # rest"
    using split_first[of v] by (elim exE)
  have ne: "v \<noteq> []" using assms(3) by (auto simp: firstEntry_def trim_def dest: isValidIP_nonempty)
  show ?thesis using assms ne 
    by (auto simp add: getClientIP_def r split: option.splits)
qed

lemma getClientIP_rest:
  assumes "\<not> (\<exists>ip. hdrs ''cf-connecting-ip'' = Some ip \<and> isValidIP ip)"
    and "\<not> (\<exists>v. hdrs ''x-forwarded-for'' = Some v \<and> isValidIP (firstEntry v))"
  shows "getClientIP hdrs =
           (case hdrs ''x-real-ip'' of
              Some ip \<Rightarrow> if isValidIP ip then ip else ''unknown''
            | None \<Rightarrow> ''unknown'')"
proof -
  have x: "(case hdrs ''x-forwarded-for'' of
              Some forwardedFor \<Rightarrow>
                if forwardedFor \<noteq> [] then
                  (case map trim (split CHR '','' forwardedFor) of
                     clientIP # rest \<Rightarrow> if isValidIP clientIP then Some clientIP else None
                   | [] \<Rightarrow> None)
                else None
            | None \<Rightarrow> None) = None"
  proof (cases "hdrs ''x-forwarded-for''")
    case None
    then show ?thesis by simp
  next
    case (Some v)
    obtain rest where r: "map trim (split CHR '','' v) = firstEntry v # rest"
      using split_first[of v] by (elim exE)
    have "\<not> isValidIP (firstEntry v)" using assms(2) Some by simp
    then show ?thesis using Some by (simp add: r)
  qed
  have c: "(case hdrs ''cf-connecting-ip'' of
              Some cfIP \<Rightarrow> if cfIP \<noteq> [] \<and> isValidIP cfIP then Some cfIP else None
            | None \<Rightarrow> None) = None"
    using assms(1) by (auto split: option.splits)
  show ?thesis
    unfolding getClientIP_def c x
    by (auto split: option.splits dest: isValidIP_nonempty)
qed


lemma getClientIP_cases:
  "getClientIP hdrs = ''unknown'' \<or> isValidIP (getClientIP hdrs)"
proof (cases "\<exists>ip. hdrs ''cf-connecting-ip'' = Some ip \<and> isValidIP ip")
  case True
  then show ?thesis using getClientIP_cf by auto
next
  case nocf: False
  show ?thesis
  proof (cases "\<exists>v. hdrs ''x-forwarded-for'' = Some v \<and> isValidIP (firstEntry v)")
    case True
    then obtain v where v: "hdrs ''x-forwarded-for'' = Some v" "isValidIP (firstEntry v)" by (elim exE conjE)
    have "getClientIP hdrs = firstEntry v" by (rule getClientIP_xff[of hdrs v, OF nocf v])
    then show ?thesis using v by simp
  next
    case False
    show ?thesis unfolding getClientIP_rest[of hdrs, OF nocf False] by (auto split: option.splits)
  qed
qed

lemma valid_examples:
  "isValidIP ''1.2.3.4''" "isValidIP ''5.6.7.8''" "isValidIP ''9.9.9.9''"
  "\<not> isValidIP ''not-an-ip''" "\<not> isValidIP (firstEntry ''garbage'')"
  "firstEntry ''5.6.7.8, 9.9.9.9'' = ''5.6.7.8''" "\<not> isValidIP ''::1''"
  by code_simp+

text \<open>
  Claim C9, as stated: the value of \<open>cf-connecting-ip\<close> is taken whenever it is a
  syntactically valid IP literal. It fails: \<open>::1\<close> is an IPv6 literal in compressed form,
  and with it in \<open>cf-connecting-ip\<close> the answer is the entry of \<open>x-forwarded-for\<close>, or
  \<open>"unknown"\<close> when there is no other header.
\<close>

theorem compressed_ipv6_counterexample:
  "ipv6Literal ''::1'' \<and>
   getClientIP [''cf-connecting-ip'' \<mapsto> ''::1'', ''x-forwarded-for'' \<mapsto> ''5.6.7.8''] = ''5.6.7.8'' \<and>
   getClientIP [''cf-connecting-ip'' \<mapsto> ''::1''] = ''unknown''"
proof -
  have "getClientIP [''cf-connecting-ip'' \<mapsto> ''::1'', ''x-forwarded-for'' \<mapsto> ''5.6.7.8''] = ''5.6.7.8''"
    by code_simp
  moreover have "getClientIP [''cf-connecting-ip'' \<mapsto> ''::1''] = ''unknown''"
    by code_simp
  ultimately show ?thesis using loopback_literal by blast
qed

text \<open>
  Claim C9, amended. The client address is taken, in this order, from \<open>cf-connecting-ip\<close>
  if its value is an accepted literal (dotted IPv4 with groups of value at most 255, or
  IPv6 written in full as eight groups), else from the first entry of \<open>x-forwarded-for\<close>
  if that is accepted, else from \<open>x-real-ip\<close> if accepted, else it is \<open>"unknown"\<close>; it
  is never empty. In particular \<open>{cf-connecting-ip: "1.2.3.4"}\<close> gives \<open>"1.2.3.4"\<close>,
  only \<open>{x-forwarded-for: "5.6.7.8, 9.9.9.9"}\<close> gives \<open>"5.6.7.8"\<close>, and no recognized
  header gives \<open>"unknown"\<close>.
\<close>

theorem client_ip_precedence:
  "(\<forall>ip. hdrs ''cf-connecting-ip'' = Some ip \<and> acceptedLiteral ip \<longrightarrow> getClientIP hdrs = ip) \<and>
   (\<not> (\<exists>ip. hdrs ''cf-connecting-ip'' = Some ip \<and> acceptedLiteral ip) \<longrightarrow>
      (\<forall>v. hdrs ''x-forwarded-for'' = Some v \<and> acceptedLiteral (firstEntry v) \<longrightarrow>
           getClientIP hdrs = firstEntry v) \<and>
      (\<not> (\<exists>v. hdrs ''x-forwarded-for'' = Some v \<and> acceptedLiteral (firstEntry v)) \<longrightarrow>
         (\<forall>ip. hdrs ''x-real-ip'' = Some ip \<and> acceptedLiteral ip \<longrightarrow> getClientIP hdrs = ip) \<and>
         (\<not> (\<exists>ip. hdrs ''x-real-ip'' = Some ip \<and> acceptedLiteral ip) \<longrightarrow>
            getClientIP hdrs = ''unknown''))) \<and>
   getClientIP hdrs \<noteq> [] \<and>
   getClientIP [''cf-connecting-ip'' \<mapsto> ''1.2.3.4''] = ''1.2.3.4'' \<and>
   getClientIP [''x-forwarded-for'' \<mapsto> ''5.6.7.8, 9.9.9.9''] = ''5.6.7.8'' \<and>
   (hdrs ''cf-connecting-ip'' = None \<and> hdrs ''x-forwarded-for'' = None \<and>
    hdrs ''x-real-ip'' = None \<longrightarrow> getClientIP hdrs = ''unknown'')"
  unfolding isValidIP_iff[symmetric]
proof (intro conjI)
  show "\<forall>ip. hdrs ''cf-connecting-ip'' = Some ip \<and> isValidIP ip \<longrightarrow> getClientIP hdrs = ip"
    using getClientIP_cf by blast
  show "\<not> (\<exists>ip. hdrs ''cf-connecting-ip'' = Some ip \<and> isValidIP ip) \<longrightarrow>
      (\<forall>v. hdrs ''x-forwarded-for'' = Some v \<and> isValidIP (firstEntry v) \<longrightarrow>
           getClientIP hdrs = firstEntry v) \<and>
      (\<not> (\<exists>v. hdrs ''x-forwarded-for'' = Some v \<and> isValidIP (firstEntry v)) \<longrightarrow>
         (\<forall>ip. hdrs ''x-real-ip'' = Some ip \<and> isValidIP ip \<longrightarrow> getClientIP hdrs = ip) \<and>
         (\<not> (\<exists>ip. hdrs ''x-real-ip'' = Some ip \<and> isValidIP ip) \<longrightarrow>
            getClientIP hdrs = ''unknown''))"
  proof (intro impI conjI allI)
    fix v
    assume "\<not> (\<exists>ip. hdrs ''cf-connecting-ip'' = Some ip \<and> isValidIP ip)"
      and "hdrs ''x-forwarded-for'' = Some v \<and> isValidIP (firstEntry v)"
    then show "getClientIP hdrs = firstEntry v" using getClientIP_xff[of hdrs v] by blast
  next
    fix ip
    assume a: "\<not> (\<exists>ip. hdrs ''cf-connecting-ip'' = Some ip \<and> isValidIP ip)"
      and b: "\<not> (\<exists>v. hdrs ''x-forwarded-for'' = Some v \<and> isValidIP (firstEntry v))"
      and c: "hdrs ''x-real-ip'' = Some ip \<and> isValidIP ip"
    show "getClientIP hdrs = ip" unfolding getClientIP_rest[of hdrs, OF a b] using c by simp
  next
    assume a: "\<not> (\<exists>ip. hdrs ''cf-connecting-ip'' = Some ip \<and> isValidIP ip)"
      and b: "\<not> (\<exists>v. hdrs ''x-forwarded-for'' = Some v \<and> isValidIP (firstEntry v))"
      and c: "\<not> (\<exists>ip. hdrs ''x-real-ip'' = Some ip \<and> isValidIP ip)"
    show "getClientIP hdrs = ''unknown''"
      unfolding getClientIP_rest[of hdrs, OF a b] using c by (auto split: option.splits)
  qed
  show "getClientIP hdrs \<noteq> []"
    using getClientIP_cases[of hdrs] isValidIP_nonempty[of "getClientIP hdrs"] by auto
  show "getClientIP [''cf-connecting-ip'' \<mapsto> ''1.2.3.4''] = ''1.2.3.4''"
    by (rule getClientIP_cf) (simp_all add: valid_examples)
  show "getClientIP [''x-forwarded-for'' \<mapsto> ''5.6.7.8, 9.9.9.9''] = ''5.6.7.8''"
    using getClientIP_xff[of "[''x-forwarded-for'' \<mapsto> ''5.6.7.8, 9.9.9.9'']" "''5.6.7.8, 9.9.9.9''"]
    by (simp add: valid_examples)
  show "hdrs ''cf-connecting-ip'' = None \<and> hdrs ''x-forwarded-for'' = None \<and>
    hdrs ''x-real-ip'' = None \<longrightarrow> getClientIP hdrs = ''unknown''"
    by (simp add: getClientIP_def)
qed

theorem client_ip_precedence_witness:
  "acceptedLiteral ''1.2.3.4'' \<and>
   getClientIP [''cf-connecting-ip'' \<mapsto> ''1.2.3.4'', ''x-forwarded-for'' \<mapsto> ''5.6.7.8, 9.9.9.9'']
     = ''1.2.3.4'' \<and>
   \<not> acceptedLiteral ''not-an-ip'' \<and> acceptedLiteral (firstEntry ''5.6.7.8, 9.9.9.9'') \<and>
   getClientIP [''cf-connecting-ip'' \<mapsto> ''not-an-ip'', ''x-forwarded-for'' \<mapsto> ''5.6.7.8, 9.9.9.9'',
                ''x-real-ip'' \<mapsto> ''9.9.9.9'']
     = ''5.6.7.8'' \<and>
   \<not> acceptedLiteral (firstEntry ''garbage'') \<and> acceptedLiteral ''9.9.9.9'' \<and>
   getClientIP [''x-forwarded-for'' \<mapsto> ''garbage'', ''x-real-ip'' \<mapsto> ''9.9.9.9''] = ''9.9.9.9'' \<and>
   getClientIP [''x-forwarded-for'' \<mapsto> ''garbage''] = ''unknown'' \<and>
   getClientIP Map.empty = ''unknown''"
proof -
  let ?h1 = "[''cf-connecting-ip'' \<mapsto> ''1.2.3.4'', ''x-forwarded-for'' \<mapsto> ''5.6.7.8, 9.9.9.9'']"
  let ?h2 = "[''cf-connecting-ip'' \<mapsto> ''not-an-ip'', ''x-forwarded-for'' \<mapsto> ''5.6.7.8, 9.9.9.9'',
              ''x-real-ip'' \<mapsto> ''9.9.9.9'']"
  let ?h3 = "[''x-forwarded-for'' \<mapsto> ''garbage'', ''x-real-ip'' \<mapsto> ''9.9.9.9'']"
  let ?h4 = "[''x-forwarded-for'' \<mapsto> ''garbage'']"
  note ve = valid_examples[unfolded isValidIP_iff]
  have v: "acceptedLiteral (firstEntry ''5.6.7.8, 9.9.9.9'')" by (simp add: ve)
  have e1: "getClientIP ?h1 = ''1.2.3.4''"
    using client_ip_precedence[of ?h1, THEN conjunct1] by (simp add: ve)
  have e2: "getClientIP ?h2 = ''5.6.7.8''"
    using client_ip_precedence[of ?h2, THEN conjunct2, THEN conjunct1] v
    by (simp add: ve)
  have e3: "getClientIP ?h3 = ''9.9.9.9''"
    using client_ip_precedence[of ?h3, THEN conjunct2, THEN conjunct1]
    by (simp add: ve)
  have e4: "getClientIP ?h4 = ''unknown''"
    using client_ip_precedence[of ?h4, THEN conjunct2, THEN conjunct1]
    by (simp add: ve)
  have e5: "getClientIP Map.empty = ''unknown''"
    using client_ip_precedence[of Map.empty] by simp
  show ?thesis using ve v e1 e2 e3 e4 e5 by blast
qed

section \<open>Properties of the sanitization for logging\<close>



























end
